theory Spec2Isabelle
  imports Complex_Main "HOL-Library.Sublist"
begin

section \<open>Strings\<close>

text \<open>
  JavaScript strings are modelled as HOL strings whose characters are the UTF-16 code units
  below 256. \<open>toLowerCase\<close> lowers \<open>A\<close>..\<open>Z\<close> and the Latin-1 capitals
  (code units 192..222 except the multiplication sign 215), as \<open>String.prototype.toLowerCase\<close>
  does on that range.
\<close>

definition toLowerCase_char :: "char \<Rightarrow> char" where
  "toLowerCase_char c =
     (let n = (of_char c :: int)
      in if (65 \<le> n \<and> n \<le> 90) \<or> (192 \<le> n \<and> n \<le> 222 \<and> n \<noteq> 215)
         then char_of (n + 32) else c)"

definition toLowerCase :: "string \<Rightarrow> string" where
  "toLowerCase s = map toLowerCase_char s"

text \<open>\<open>s.includes(t)\<close>: \<open>t\<close> occurs in \<open>s\<close> as a contiguous substring.\<close>

fun str_includes :: "string \<Rightarrow> string \<Rightarrow> bool" where
  "str_includes [] t = (t = [])"
| "str_includes (c # cs) t = (prefix t (c # cs) \<or> str_includes cs t)"

text \<open>\<open>xs.join(sep)\<close>.\<close>

fun join :: "string \<Rightarrow> string list \<Rightarrow> string" where
  "join sep [] = []"
| "join sep [x] = x"
| "join sep (x # y # ys) = x @ sep @ join sep (y # ys)"

text \<open>
  \<open>String(n)\<close> for a non-negative integer \<open>n\<close> (below \<open>10^21\<close>, where JavaScript
  still prints every digit): the decimal digits, most significant first.
\<close>

definition digit :: "nat \<Rightarrow> char" where
  "digit d = ''0123456789'' ! d"

function String_of_nat :: "nat \<Rightarrow> string" where
  "String_of_nat n =
     (if n < 10 then [digit n] else String_of_nat (n div 10) @ [digit (n mod 10)])"
  by pat_completeness auto
termination
  by (relation "measure id") auto

declare String_of_nat.simps [simp del]

fun decimal_value :: "int \<Rightarrow> string \<Rightarrow> int" where
  "decimal_value acc [] = acc"
| "decimal_value acc (c # cs) = decimal_value (acc * 10 + (of_char c - 48)) cs"

section \<open>The channel table\<close>

record channel =
  ch_url :: string
  ch_slug :: string
  ch_name :: string
  ch_number :: nat

text \<open>
  An object literal is the list of its \<open>key: value\<close> entries in the order they are written.
\<close>

type_synonym channel_table = "(string \<times> channel) list"

definition kayo :: "string \<Rightarrow> string \<Rightarrow> nat \<Rightarrow> channel" where
  "kayo sl nm num =
     \<lparr>ch_url = ''https://kayosports.com.au/browse'', ch_slug = sl, ch_name = nm, ch_number = num\<rparr>"

definition CHANNELS :: channel_table where
  "CHANNELS =
     [(''espn'', kayo ''5bce8eb9e4b0a8faf3c14a94'' ''ESPN'' 509),
      (''footy'', kayo ''5bcefacfe4b0a8faf3c14ae2'' ''Fox Footy'' 504),
      (''cricket'', kayo ''5bcef5ede4b0a8faf3c14acf'' ''Fox Cricket'' 501),
      (''505'', kayo ''5bcefaf5e4b0cb6f1d7f46fc'' ''Fox Sports 505'' 505),
      (''503'', kayo ''5bcef93ae4b0a8faf3c14ada'' ''Fox Sports 503'' 503),
      (''506'', kayo ''5bcefc4ae4b0a8faf3c14aed'' ''Fox Sports 506'' 506),
      (''league'', kayo ''5bcef901e4b0cb6f1d7f46f3'' ''Fox League'' 502),
      (''news'', kayo ''5bcefccee4b0a8faf3c14aef'' ''Fox Sports News'' 500),
      (''racing'', kayo ''5ccacc4ae4b020d0a4eb3979'' ''Racing.com'' 529),
      (''ufc'', kayo ''66d524f4e4b06b17c2bfdd58'' ''Main Event UFC'' 523),
      (''espn2'', kayo ''5bcef583e4b0a8faf3c14acb'' ''ESPN2'' 510),
      (''507'', kayo ''5bcefc6be4b0cb6f1d7f4703'' ''Fox Sports 507'' 507)]"

text \<open>
  \<open>Object.keys(obj)\<close> lists the own keys of an object: first the keys that are array
  indices (canonical decimal numerals below \<open>2^32 - 1\<close>) in ascending numeric order, then
  the other string keys in the order they were written.
\<close>

definition is_digit :: "char \<Rightarrow> bool" where
  "is_digit c = (48 \<le> (of_char c :: int) \<and> (of_char c :: int) \<le> 57)"

definition is_array_index :: "string \<Rightarrow> bool" where
  "is_array_index k =
     (k \<noteq> [] \<and> list_all is_digit k \<and> (if take 1 k = ''0'' then k = ''0'' else True)
      \<and> decimal_value 0 k < 4294967295)"

definition object_keys :: "channel_table \<Rightarrow> string list" where
  "object_keys obj =
     sort_key (decimal_value 0) (filter is_array_index (map fst obj))
     @ filter (\<lambda>k. \<not> is_array_index k) (map fst obj)"

text \<open>
  \<open>obj[k]\<close> on an object literal: an own property if there is one, otherwise the property
  of that name inherited from \<open>Object.prototype\<close> (a function or object, hence truthy),
  otherwise \<open>undefined\<close>.
\<close>

datatype property = Undefined | Own channel | Inherited

definition Object_prototype_names :: "string list" where
  "Object_prototype_names =
     [''constructor'', ''__defineGetter__'', ''__defineSetter__'', ''hasOwnProperty'',
      ''__lookupGetter__'', ''__lookupSetter__'', ''isPrototypeOf'', ''propertyIsEnumerable'',
      ''toString'', ''valueOf'', ''__proto__'', ''toLocaleString'']"

definition property_get :: "channel_table \<Rightarrow> string \<Rightarrow> property" where
  "property_get obj k =
     (case map_of obj k of
        Some ch \<Rightarrow> Own ch
      | None \<Rightarrow> if List.member Object_prototype_names k then Inherited else Undefined)"

text \<open>
  \<open>channel.slug\<close> as the resolver uses it: the slug of a channel; on an inherited value the
  property is \<open>undefined\<close>, which \<open>includes\<close> searches for as the text \<open>undefined\<close>.
\<close>

fun slug_of :: "property \<Rightarrow> string" where
  "slug_of (Own ch) = ch_slug ch"
| "slug_of _ = ''undefined''"

section \<open>Tuner protocol surface\<close>

record lineup_item =
  GuideNumber :: string
  GuideName :: string
  URL :: string

text \<open>
  The callback of \<open>Object.keys(CHANNELS).map\<close> reads \<open>CHANNELS[k]\<close>; reading a field of
  \<open>undefined\<close> would throw, which is the value \<open>None\<close> here.
\<close>

definition with_channel :: "channel_table \<Rightarrow> string \<Rightarrow> (string \<times> channel) option" where
  "with_channel obj k = map_option (Pair k) (map_of obj k)"

definition stream_url :: "string \<Rightarrow> string \<Rightarrow> string \<Rightarrow> string" where
  "stream_url protocol host k = protocol @ ''://'' @ host @ ''/stream/'' @ k"

definition lineup_entry :: "string \<Rightarrow> string \<Rightarrow> string \<times> channel \<Rightarrow> lineup_item" where
  "lineup_entry protocol host kc =
     \<lparr>GuideNumber = String_of_nat (ch_number (snd kc)),
      GuideName = ch_name (snd kc),
      URL = stream_url protocol host (fst kc)\<rparr>"

definition lineup_json :: "channel_table \<Rightarrow> string \<Rightarrow> string \<Rightarrow> lineup_item list option" where
  "lineup_json obj protocol host =
     map_option (map (lineup_entry protocol host))
       (those (map (with_channel obj) (object_keys obj)))"

text \<open>
  \<open>Array.prototype.sort\<close> with the comparator \<open>CHANNELS[a].number - CHANNELS[b].number\<close> is a
  stable sort on the channel number; the table is read once per key before sorting instead
  of inside the comparator.
\<close>

definition playlist_entries :: "channel_table \<Rightarrow> (string \<times> channel) list option" where
  "playlist_entries obj =
     map_option (sort_key (\<lambda>kc. ch_number (snd kc)))
       (those (map (with_channel obj) (object_keys obj)))"

definition extinf :: "string \<Rightarrow> string \<Rightarrow> string \<times> channel \<Rightarrow> string" where
  "extinf protocol host kc =
     ''#EXTINF:-1 channel-id=\"kayo-'' @ fst kc @ ''\" tvg-chno=\"''
       @ String_of_nat (ch_number (snd kc)) @ ''\" tvg-name=\"'' @ ch_name (snd kc) @ ''\",''
       @ ch_name (snd kc) @ [CHR 0x0A] @ stream_url protocol host (fst kc)"

definition playlist_m3u :: "channel_table \<Rightarrow> string \<Rightarrow> string \<Rightarrow> string option" where
  "playlist_m3u obj protocol host =
     map_option
       (\<lambda>es. ''#EXTM3U'' @ [CHR 0x0A, CHR 0x0A]
              @ join [CHR 0x0A, CHR 0x0A] (map (extinf protocol host) es))
       (playlist_entries obj)"

section \<open>The transcode subprocess\<close>

text \<open>
  The closure state of \<open>spawnMpegTsTranscoder\<close>: its \<open>shuttingDown\<close> flag, set by
  \<open>kill\<close>, and the \<open>killed\<close> flag of the child process.
\<close>

record transcoder =
  shuttingDown :: bool
  killed :: bool

datatype ffmpeg_error = Exited_with_code int | Killed_by_signal string

text \<open>
  The \<open>exit\<close> listener. \<open>code\<close> and \<open>signal\<close> are \<open>null\<close> (\<open>None\<close>) or a value; the
  result is the error handed to \<open>onError\<close>, if any.
\<close>

definition on_exit :: "transcoder \<Rightarrow> int option \<Rightarrow> string option \<Rightarrow> ffmpeg_error option" where
  "on_exit t code signal =
     (if shuttingDown t then None
      else if signal = Some ''SIGTERM'' then None
      else case code of
             Some c \<Rightarrow>
               if c \<noteq> 0 then Some (Exited_with_code c)
               else (case signal of
                       Some sg \<Rightarrow> if sg \<noteq> [] then Some (Killed_by_signal sg) else None
                     | None \<Rightarrow> None)
           | None \<Rightarrow>
               (case signal of
                  Some sg \<Rightarrow> if sg \<noteq> [] then Some (Killed_by_signal sg) else None
                | None \<Rightarrow> None))"

definition kill :: "transcoder \<Rightarrow> transcoder" where
  "kill t = t\<lparr>shuttingDown := True, killed := True\<rparr>"

definition spawnMpegTsTranscoder :: transcoder where
  "spawnMpegTsTranscoder = \<lparr>shuttingDown = False, killed = False\<rparr>"

section \<open>Channel target resolver\<close>

text \<open>
  The part of the DOM that \<open>tileClickDirectStrategy\<close> reads. An element carries its tag
  name, its \<open>role\<close> attribute, whether it has an \<open>onclick\<close> attribute, its computed cursor
  and its bounding client rectangle. Scrolling moves a rectangle without resizing it; the
  position recorded here is the one \<open>getBoundingClientRect\<close> reports once the element has
  been scrolled into view, which is when the source reads it. Coordinates are exact
  rationals. An image carries its \<open>src\<close> and the chain of its \<open>parentElement\<close>s, nearest
  first, up to but excluding \<open>document.body\<close>.
\<close>

record element =
  tagName :: string
  role :: "string option"
  has_onclick :: bool
  cursor :: string
  rect_x :: rat
  rect_y :: rat
  rect_width :: rat
  rect_height :: rat

record img =
  src :: string
  parents :: "element list"

type_synonym point = "rat \<times> rat"

definition semantic :: "element \<Rightarrow> bool" where
  "semantic e =
     (tagName e = ''A'' \<or> tagName e = ''BUTTON'' \<or> role e = Some ''button'' \<or> has_onclick e)"

definition visible :: "element \<Rightarrow> bool" where
  "visible e = (rect_width e > 0 \<and> rect_height e > 0)"

definition pointer_sized :: "element \<Rightarrow> bool" where
  "pointer_sized e = (rect_width e > 20 \<and> rect_height e > 20 \<and> cursor e = ''pointer'')"

definition center :: "element \<Rightarrow> point" where
  "center e = (rect_x e + rect_width e / 2, rect_y e + rect_height e / 2)"

text \<open>The \<open>while (ancestor && ancestor !== document.body)\<close> loop and the code after it.\<close>

fun walk :: "element list \<Rightarrow> element option \<Rightarrow> point option" where
  "walk [] pointerFallback =
     (case pointerFallback of
        Some e \<Rightarrow> if visible e then Some (center e) else None
      | None \<Rightarrow> None)"
| "walk (ancestor # up) pointerFallback =
     (if semantic ancestor \<and> visible ancestor then Some (center ancestor)
      else walk up
             (if pointerFallback = None \<and> pointer_sized ancestor then Some ancestor
              else pointerFallback))"

text \<open>The \<open>for (const img of images)\<close> loop of the function evaluated in the page.\<close>

definition matches :: "string \<Rightarrow> img \<Rightarrow> bool" where
  "matches slug i = (src i \<noteq> [] \<and> str_includes (src i) slug)"

fun find_tile :: "string \<Rightarrow> img list \<Rightarrow> point option" where
  "find_tile slug [] = None"
| "find_tile slug (i # images) =
     (if matches slug i then
        (case walk (parents i) None of
           Some p \<Rightarrow> Some p
         | None \<Rightarrow> find_tile slug images)
      else find_tile slug images)"

record select_result =
  success :: bool
  reason :: "string option"
  clicks :: "point list"

definition tileClickDirectStrategy :: "img list \<Rightarrow> string \<Rightarrow> select_result" where
  "tileClickDirectStrategy images channelSlug =
     (case find_tile channelSlug images of
        None \<Rightarrow> \<lparr>success = False, reason = Some ''Channel tile not found in page images.'',
                  clicks = []\<rparr>
      | Some tileTarget \<Rightarrow> \<lparr>success = True, reason = None, clicks = [tileTarget]\<rparr>)"

text \<open>
  \<open>selectChannelDirect\<close> waits for a matching image and goes on whether or not one
  appeared; the page it then evaluates in is its argument here.
\<close>

definition selectChannelDirect :: "img list \<Rightarrow> string \<Rightarrow> select_result" where
  "selectChannelDirect images channelSlug = tileClickDirectStrategy images channelSlug"

text \<open>
  The choice the resolver makes for one tile, stated on the ancestor chain: the nearest
  ancestor that is semantically clickable and has a non-empty box, otherwise the first
  ancestor that is large enough and shows a pointer cursor.
\<close>

definition tile_target :: "element list \<Rightarrow> element option" where
  "tile_target up =
     (case find (\<lambda>e. semantic e \<and> visible e) up of
        Some e \<Rightarrow> Some e
      | None \<Rightarrow> find pointer_sized up)"

definition usable :: "string \<Rightarrow> img \<Rightarrow> bool" where
  "usable slug i = (matches slug i \<and> tile_target (parents i) \<noteq> None)"

text \<open>A page whose only matching image sits in a link that has an empty box.\<close>

definition hidden_link :: element where
  "hidden_link =
     \<lparr>tagName = ''A'', role = None, has_onclick = False, cursor = ''auto'',
      rect_x = 0, rect_y = 0, rect_width = 0, rect_height = 0\<rparr>"

definition hidden_link_page :: "img list" where
  "hidden_link_page =
     [\<lparr>src = ''https://cdn.example/5bce8eb9e4b0a8faf3c14a94.png'', parents = [hidden_link]\<rparr>]"

section \<open>Stream sessions\<close>

text \<open>
  The server runs on one event loop: a handler runs without interruption from one
  \<open>await\<close> to the next, and between two such blocks any other handler, listener or timer
  may run. The state below is the state shared by all requests together with one record per
  stream session; an event is one block. Awaits on helpers that touch none of the shared
  state are taken together with the block that follows them.
\<close>

datatype output_format = Webm | Mpegts

datatype handler = Channel_stream | Generic_stream

text \<open>
  Where a handler is suspended: at the acquisition of the browser and page, at the
  navigation, at the capture start, at the promise of \<open>waitForStreamSlot\<close>, at the
  channel selection, at the playback polls, at the best-effort fullscreen and minimise
  calls, before its synchronous piping block (a step of its own, so that its \<open>catch\<close>
  branch has an outcome), or returned.
\<close>

datatype pc =
    Await_page | Await_navigate | Await_capture | Await_slot | Await_select
  | Await_playback | Await_fullscreen | At_pipe | Returned

datatype stage =
    Init | PageAcquired | Navigated | CaptureStarted | SlotAcquired | ChannelSelected
  | PlaybackVerified | Piping

text \<open>
  The variables of one handler activation: \<open>page\<close>, \<open>stream\<close> (\<open>Some d\<close> once opened,
  \<open>d\<close> telling whether it was destroyed), \<open>ffmpegProcess\<close>, the flags \<open>cleanup._done\<close>
  and \<open>cleanup._countedStream\<close>, the promise of \<open>waitForStreamSlot\<close> (\<open>None\<close> while
  pending), its timer (\<open>Some ms\<close> while armed), and the response (status with the body of
  an error reply, or with the content type of a media reply). The last four fields are
  history: the stages committed so far, the reasons printed by the executions of the
  cleanup body, the number of slot releases, and the position of the \<open>waiters.push\<close>
  among all pushes.
\<close>

record session =
  handler :: handler
  ch_slug_used :: string
  pc :: pc
  page :: "nat option"
  stream :: "bool option"
  ffmpegProcess :: "transcoder option"
  cleanup_done :: bool
  countedStream :: bool
  slotOk :: "bool option"
  timer :: "nat option"
  response :: "(nat \<times> string) option"
  mouse :: "point list"
  stages :: "stage list"
  cleanups :: "string list"
  releases :: nat
  ticket :: nat

text \<open>
  The shared state: \<open>activeStreams\<close>, the \<open>waiters\<close> queue (a waiter is the \<open>onSlot\<close>
  closure of a session, named by the session), \<open>currentBrowser\<close> (connected or not),
  \<open>pagesInUse\<close>, the number of pages \<open>browser.newPage\<close> has handed out (a page is named by
  its number), the \<open>page.close()\<close> calls made so far, and the replies sent without
  starting a session.
\<close>

record state =
  outputFormat :: output_format
  activeStreams :: int
  waiters :: "nat list"
  pushes :: nat
  sessions :: "session list"
  replies :: "(nat \<times> string) list"
  currentBrowser :: bool
  newPages :: nat
  pagesInUse :: "nat set"
  closes :: "nat list"

definition MAX_CONCURRENT_STREAMS :: int where
  "MAX_CONCURRENT_STREAMS = 2"

definition QUEUE_WAIT_MS :: nat where
  "QUEUE_WAIT_MS = 5000"

definition init :: "output_format \<Rightarrow> state" where
  "init fmt =
     \<lparr>outputFormat = fmt, activeStreams = 0, waiters = [], pushes = 0, sessions = [],
      replies = [], currentBrowser = False, newPages = 0, pagesInUse = {}, closes = []\<rparr>"

definition modify :: "nat \<Rightarrow> (session \<Rightarrow> session) \<Rightarrow> state \<Rightarrow> state" where
  "modify i f s = s\<lparr>sessions := (sessions s)[i := f (sessions s ! i)]\<rparr>"

subsection \<open>Concurrency control\<close>

text \<open>A promise settles once: a later \<open>resolve\<close> changes nothing.\<close>

definition resolve :: "bool \<Rightarrow> session \<Rightarrow> session" where
  "resolve b x = (case slotOk x of None \<Rightarrow> x\<lparr>slotOk := Some b\<rparr> | Some _ \<Rightarrow> x)"

definition onSlot :: "nat \<Rightarrow> state \<Rightarrow> state" where
  "onSlot w s = modify w (\<lambda>x. resolve True (x\<lparr>timer := None\<rparr>)) s"

definition notifyStreamSlot :: "state \<Rightarrow> state" where
  "notifyStreamSlot s =
     (case waiters s of
        [] \<Rightarrow> s
      | r # rest \<Rightarrow> onSlot r (s\<lparr>waiters := rest\<rparr>))"

definition waitForStreamSlot :: "nat \<Rightarrow> nat \<Rightarrow> state \<Rightarrow> state" where
  "waitForStreamSlot i timeoutMs s =
     (if activeStreams s < MAX_CONCURRENT_STREAMS
      then modify i (\<lambda>x. x\<lparr>slotOk := Some True\<rparr>) s
      else modify i (\<lambda>x. x\<lparr>timer := Some timeoutMs, ticket := pushes s\<rparr>)
             (s\<lparr>waiters := waiters s @ [i], pushes := pushes s + 1\<rparr>))"

text \<open>The timer callback: \<open>indexOf\<close> and \<open>splice\<close> remove the first occurrence.\<close>

definition onTimeout :: "nat \<Rightarrow> state \<Rightarrow> state" where
  "onTimeout i s =
     modify i (\<lambda>x. resolve False (x\<lparr>timer := None\<rparr>)) (s\<lparr>waiters := remove1 i (waiters s)\<rparr>)"

subsection \<open>Page pool\<close>

definition acquirePage :: "nat \<Rightarrow> state \<Rightarrow> state" where
  "acquirePage i s =
     modify i (\<lambda>x. x\<lparr>page := Some (newPages s)\<rparr>)
       (s\<lparr>currentBrowser := True, pagesInUse := insert (newPages s) (pagesInUse s),
          newPages := newPages s + 1\<rparr>)"

definition releasePage :: "nat option \<Rightarrow> state \<Rightarrow> state" where
  "releasePage pg s =
     (case pg of
        None \<Rightarrow> s
      | Some p \<Rightarrow> s\<lparr>pagesInUse := pagesInUse s - {p}, closes := closes s @ [p]\<rparr>)"

subsection \<open>Cleanup\<close>

text \<open>
  The \<open>cleanup\<close> closure, which both handlers define with the same text. All of it up to
  and including the call of \<open>page.close()\<close> runs in one block.
\<close>

definition cleanup :: "nat \<Rightarrow> string \<Rightarrow> state \<Rightarrow> state" where
  "cleanup i why s =
     (let x = sessions s ! i in
      if cleanup_done x then s
      else
        let s1 = modify i (\<lambda>x. x\<lparr>cleanup_done := True, cleanups := cleanups x @ [why],
                                   ffmpegProcess := map_option kill (ffmpegProcess x),
                                   stream := map_option (\<lambda>d. True) (stream x)\<rparr>) s;
            s2 = (if countedStream x
                  then notifyStreamSlot
                         (modify i (\<lambda>x. x\<lparr>countedStream := False, releases := releases x + 1\<rparr>)
                            (s1\<lparr>activeStreams :=
                                  (if activeStreams s1 > 0 then activeStreams s1 - 1
                                   else activeStreams s1)\<rparr>))
                  else s1)
        in releasePage (page x) s2)"

subsection \<open>The two stream handlers\<close>

definition new_session :: "handler \<Rightarrow> string \<Rightarrow> session" where
  "new_session h sl =
     \<lparr>handler = h, ch_slug_used = sl, pc = Await_page, page = None, stream = None,
      ffmpegProcess = None, cleanup_done = False, countedStream = False, slotOk = None,
      timer = None, response = None, mouse = [], stages = [Init], cleanups = [],
      releases = 0, ticket = 0\<rparr>"

definition enter :: "stage \<Rightarrow> pc \<Rightarrow> session \<Rightarrow> session" where
  "enter g p x = x\<lparr>stages := stages x @ [g], pc := p\<rparr>"

text \<open>\<open>res.status(code).send(body); await cleanup(reason); return\<close>. The text of the
  exception, which the source appends to some bodies, is left out.\<close>

definition fail :: "nat \<Rightarrow> nat \<Rightarrow> string \<Rightarrow> string \<Rightarrow> state \<Rightarrow> state" where
  "fail i code body why s =
     modify i (\<lambda>x. x\<lparr>pc := Returned\<rparr>)
       (cleanup i why (modify i (\<lambda>x. x\<lparr>response := Some (code, body)\<rparr>) s))"

text \<open>\<open>activeStreams++; cleanup._countedStream = true\<close>.\<close>

definition take_slot :: "nat \<Rightarrow> state \<Rightarrow> state" where
  "take_slot i s =
     modify i (\<lambda>x. x\<lparr>countedStream := True\<rparr>) (s\<lparr>activeStreams := activeStreams s + 1\<rparr>)"

text \<open>The piping block when nothing in it throws.\<close>

definition pipe :: "nat \<Rightarrow> state \<Rightarrow> state" where
  "pipe i s =
     modify i
       (\<lambda>x. enter Piping Returned
          (if outputFormat s = Mpegts
           then x\<lparr>response := Some (200, ''video/mp2t''),
                  ffmpegProcess := Some spawnMpegTsTranscoder\<rparr>
           else x\<lparr>response := Some (200, ''video/webm;codecs=H264'')\<rparr>)) s"

datatype outcome = Fulfilled | Rejected | Evaluated "img list"

text \<open>
  The continuation of a handler when what it awaits settles: \<open>Fulfilled\<close> or \<open>Rejected\<close>
  (thrown), or, for the channel selection, the images of the page it is evaluated in. The
  continuation after \<open>waitForStreamSlot\<close> runs once that promise has settled, with its
  value. Any other combination is not an event of the program and changes nothing.
\<close>

fun resume :: "handler \<Rightarrow> pc \<Rightarrow> outcome \<Rightarrow> nat \<Rightarrow> state \<Rightarrow> state" where
  "resume Channel_stream Await_page Fulfilled i s =
     modify i (enter PageAcquired Await_navigate) (acquirePage i s)"
| "resume Channel_stream Await_page Rejected i s =
     fail i 500 ''failed to start browser/page: '' ''init failed'' s"
| "resume Channel_stream Await_navigate Fulfilled i s =
     modify i (enter Navigated Await_capture) s"
| "resume Channel_stream Await_navigate Rejected i s =
     fail i 500 ''failed to goto/setup: '' ''goto/setup failed'' s"
| "resume Channel_stream Await_capture Fulfilled i s =
     waitForStreamSlot i QUEUE_WAIT_MS
       (modify i (\<lambda>x. enter CaptureStarted Await_slot (x\<lparr>stream := Some False\<rparr>)) s)"
| "resume Channel_stream Await_capture Rejected i s =
     fail i 500 ''failed to start capture: '' ''capture failed'' s"
| "resume Channel_stream Await_slot Fulfilled i s =
     (case slotOk (sessions s ! i) of
        None \<Rightarrow> s
      | Some False \<Rightarrow>
          fail i 429 ''Too many concurrent streams (timed out waiting for a slot)''
            ''queue timeout'' s
      | Some True \<Rightarrow> modify i (enter SlotAcquired Await_select) (take_slot i s))"
| "resume Channel_stream Await_select (Evaluated images) i s =
     (let result = selectChannelDirect images (ch_slug_used (sessions s ! i)) in
      if \<not> success result
      then fail i 500
             (''Failed to select channel: ''
                @ (case reason result of Some r \<Rightarrow> r | None \<Rightarrow> ''undefined''))
             ''channel select failed'' s
      else modify i (\<lambda>x. enter ChannelSelected Await_playback
                            (x\<lparr>mouse := mouse x @ clicks result\<rparr>)) s)"
| "resume Channel_stream Await_select Rejected i s =
     fail i 500 ''Channel selection error: '' ''automation failed'' s"
| "resume Channel_stream Await_playback Fulfilled i s =
     modify i (enter PlaybackVerified Await_fullscreen) s"
| "resume Channel_stream Await_playback Rejected i s =
     fail i 500 ''Channel selection error: '' ''automation failed'' s"
| "resume Channel_stream Await_fullscreen Fulfilled i s = modify i (\<lambda>x. x\<lparr>pc := At_pipe\<rparr>) s"
| "resume Channel_stream Await_fullscreen Rejected i s = modify i (\<lambda>x. x\<lparr>pc := At_pipe\<rparr>) s"
| "resume Channel_stream At_pipe Fulfilled i s = pipe i s"
| "resume Channel_stream At_pipe Rejected i s =
     fail i 500 ''failed to pipe stream: '' ''pipe failed'' s"
| "resume Generic_stream Await_page Fulfilled i s =
     modify i (enter PageAcquired Await_navigate) (acquirePage i s)"
| "resume Generic_stream Await_page Rejected i s =
     fail i 500 ''failed to goto: '' ''goto failed'' s"
| "resume Generic_stream Await_navigate Fulfilled i s =
     waitForStreamSlot i QUEUE_WAIT_MS (modify i (enter Navigated Await_slot) s)"
| "resume Generic_stream Await_navigate Rejected i s =
     fail i 500 ''failed to goto: '' ''goto failed'' s"
| "resume Generic_stream Await_slot Fulfilled i s =
     (case slotOk (sessions s ! i) of
        None \<Rightarrow> s
      | Some False \<Rightarrow> fail i 429 ''Too many concurrent streams'' ''queue timeout'' s
      | Some True \<Rightarrow> modify i (enter SlotAcquired Await_capture) (take_slot i s))"
| "resume Generic_stream Await_capture Fulfilled i s =
     modify i (\<lambda>x. enter CaptureStarted At_pipe (x\<lparr>stream := Some False\<rparr>)) s"
| "resume Generic_stream Await_capture Rejected i s =
     fail i 500 ''failed to start stream: '' ''stream failed'' s"
| "resume Generic_stream At_pipe Fulfilled i s = pipe i s"
| "resume Generic_stream At_pipe Rejected i s =
     fail i 500 ''failed to start stream: '' ''stream failed'' s"
| "resume _ _ _ i s = s"

subsection \<open>Routes and events\<close>

text \<open>\<open>GET /stream/:channelName\<close>.\<close>

definition get_stream_channel :: "string \<Rightarrow> state \<Rightarrow> state" where
  "get_stream_channel raw s =
     (let channelName = toLowerCase raw; channel = property_get CHANNELS channelName in
      if channel = Undefined
      then s\<lparr>replies := replies s
                @ [(404, ''Channel not found. Available channels: ''
                           @ join '', '' (object_keys CHANNELS))]\<rparr>
      else s\<lparr>sessions := sessions s @ [new_session Channel_stream (slug_of channel)]\<rparr>)"

text \<open>\<open>GET /stream\<close> with the query parameter \<open>url\<close>, absent or given.\<close>

definition get_stream :: "string option \<Rightarrow> state \<Rightarrow> state" where
  "get_stream u s =
     (if u = None \<or> u = Some []
      then s\<lparr>replies := replies s @ [(400, ''Missing url parameter'')]\<rparr>
      else s\<lparr>sessions := sessions s @ [new_session Generic_stream []]\<rparr>)"

text \<open>
  The listeners that call \<open>cleanup\<close>: on the request and the response from the start of the
  handler, on the capture stream once it exists, and the \<open>error\<close> listener of the
  subprocess, which does nothing once \<open>shuttingDown\<close> is set.
\<close>

datatype trigger = Req_aborted | Res_close | Res_error string | Stream_error string | Ffmpeg_error

fun listening :: "trigger \<Rightarrow> session \<Rightarrow> bool" where
  "listening (Stream_error e) x = (stream x \<noteq> None)"
| "listening Ffmpeg_error x =
     (case ffmpegProcess x of Some t \<Rightarrow> \<not> shuttingDown t | None \<Rightarrow> False)"
| "listening t x = True"

fun reason_of :: "handler \<Rightarrow> trigger \<Rightarrow> string" where
  "reason_of h Req_aborted = ''req aborted''"
| "reason_of h Res_close = ''res close''"
| "reason_of h (Res_error e) = ''res error '' @ e"
| "reason_of Channel_stream (Stream_error e) = ''stream error '' @ e"
| "reason_of Generic_stream (Stream_error e) = ''stream error''"
| "reason_of h Ffmpeg_error = ''ffmpeg error''"

datatype event =
    Get_stream_channel string
  | Get_stream "string option"
  | Settle nat outcome
  | Emit nat trigger
  | Timer_fired nat
  | Ffmpeg_exit nat "int option" "string option"
  | Browser_disconnected

fun step :: "event \<Rightarrow> state \<Rightarrow> state" where
  "step (Get_stream_channel raw) s = get_stream_channel raw s"
| "step (Get_stream u) s = get_stream u s"
| "step (Settle i out) s =
     (if i < length (sessions s)
      then resume (handler (sessions s ! i)) (pc (sessions s ! i)) out i s else s)"
| "step (Emit i t) s =
     (if i < length (sessions s) \<and> listening t (sessions s ! i)
      then cleanup i (reason_of (handler (sessions s ! i)) t) s else s)"
| "step (Timer_fired i) s =
     (if i < length (sessions s) \<and> timer (sessions s ! i) \<noteq> None then onTimeout i s else s)"
| "step (Ffmpeg_exit i code signal) s =
     (if i < length (sessions s)
      then (case ffmpegProcess (sessions s ! i) of
              None \<Rightarrow> s
            | Some t \<Rightarrow>
                (case on_exit t code signal of
                   None \<Rightarrow> s
                 | Some err \<Rightarrow> cleanup i ''ffmpeg error'' s))
      else s)"
| "step Browser_disconnected s = s\<lparr>currentBrowser := False\<rparr>"

fun run :: "event list \<Rightarrow> state \<Rightarrow> state" where
  "run [] s = s"
| "run (e # es) s = run es (step e s)"

section \<open>Predicates used in the properties\<close>

definition tile_link :: element where
  "tile_link =
     \<lparr>tagName = ''A'', role = None, has_onclick = False, cursor = ''pointer'',
      rect_x = 100, rect_y = 40, rect_width = 320, rect_height = 180\<rparr>"

definition tile_page :: "img list" where
  "tile_page =
     [\<lparr>src = ''https://cdn.example/logo.png'', parents = []\<rparr>,
      \<lparr>src = ''https://cdn.example/5bce8eb9e4b0a8faf3c14a94.png'', parents = [tile_link]\<rparr>]"

definition play_espn :: "event list" where
  "play_espn =
     [Get_stream_channel ''ESPN'', Settle 0 Fulfilled, Settle 0 Fulfilled, Settle 0 Fulfilled,
      Settle 0 Fulfilled, Settle 0 (Evaluated tile_page), Settle 0 Fulfilled, Settle 0 Rejected,
      Settle 0 Fulfilled]"

definition piping_state :: state where
  "piping_state = run play_espn (init Mpegts)"

definition pointer_div :: element where
  "pointer_div =
     \<lparr>tagName = ''DIV'', role = None, has_onclick = False, cursor = ''pointer'',
      rect_x = 10, rect_y = 20, rect_width = 200, rect_height = 100\<rparr>"

definition small_span :: element where
  "small_span =
     \<lparr>tagName = ''SPAN'', role = None, has_onclick = False, cursor = ''pointer'',
      rect_x = 10, rect_y = 20, rect_width = 16, rect_height = 16\<rparr>"

definition pointer_page :: "img list" where
  "pointer_page =
     [\<lparr>src = ''https://cdn.example/5bce8eb9e4b0a8faf3c14a94.png'',
       parents = [small_span, pointer_div]\<rparr>]"

definition in_box :: "element \<Rightarrow> point \<Rightarrow> bool" where
  "in_box e pt =
     (rect_x e < fst pt \<and> fst pt < rect_x e + rect_width e
      \<and> rect_y e < snd pt \<and> snd pt < rect_y e + rect_height e)"

definition three_at_once :: "event list" where
  "three_at_once =
     [Get_stream_channel ''espn'', Get_stream_channel ''footy'', Get_stream_channel ''news'',
      Settle 0 Fulfilled, Settle 1 Fulfilled, Settle 2 Fulfilled,
      Settle 0 Fulfilled, Settle 1 Fulfilled, Settle 2 Fulfilled,
      Settle 0 Fulfilled, Settle 1 Fulfilled, Settle 2 Fulfilled,
      Settle 0 Fulfilled, Settle 1 Fulfilled, Settle 2 Fulfilled]"


type_synonym core = "handler \<times> pc \<times> stage list"

definition core :: "session \<Rightarrow> core" where
  "core x = (handler x, pc x, stages x)"

fun succs :: "core \<Rightarrow> core list" where
  "succs (Channel_stream, Await_page, st) =
     [(Channel_stream, Await_navigate, st @ [PageAcquired]), (Channel_stream, Returned, st)]"
| "succs (Channel_stream, Await_navigate, st) =
     [(Channel_stream, Await_capture, st @ [Navigated]), (Channel_stream, Returned, st)]"
| "succs (Channel_stream, Await_capture, st) =
     [(Channel_stream, Await_slot, st @ [CaptureStarted]), (Channel_stream, Returned, st)]"
| "succs (Channel_stream, Await_slot, st) =
     [(Channel_stream, Await_select, st @ [SlotAcquired]), (Channel_stream, Returned, st)]"
| "succs (Channel_stream, Await_select, st) =
     [(Channel_stream, Await_playback, st @ [ChannelSelected]), (Channel_stream, Returned, st)]"
| "succs (Channel_stream, Await_playback, st) =
     [(Channel_stream, Await_fullscreen, st @ [PlaybackVerified]), (Channel_stream, Returned, st)]"
| "succs (Channel_stream, Await_fullscreen, st) = [(Channel_stream, At_pipe, st)]"
| "succs (Channel_stream, At_pipe, st) =
     [(Channel_stream, Returned, st @ [Piping]), (Channel_stream, Returned, st)]"
| "succs (Generic_stream, Await_page, st) =
     [(Generic_stream, Await_navigate, st @ [PageAcquired]), (Generic_stream, Returned, st)]"
| "succs (Generic_stream, Await_navigate, st) =
     [(Generic_stream, Await_slot, st @ [Navigated]), (Generic_stream, Returned, st)]"
| "succs (Generic_stream, Await_slot, st) =
     [(Generic_stream, Await_capture, st @ [SlotAcquired]), (Generic_stream, Returned, st)]"
| "succs (Generic_stream, Await_capture, st) =
     [(Generic_stream, At_pipe, st @ [CaptureStarted]), (Generic_stream, Returned, st)]"
| "succs (Generic_stream, At_pipe, st) =
     [(Generic_stream, Returned, st @ [Piping]), (Generic_stream, Returned, st)]"
| "succs (h, p, st) = []"

fun past_slot :: "handler \<Rightarrow> pc \<Rightarrow> bool" where
  "past_slot h Await_page = False"
| "past_slot h Await_navigate = False"
| "past_slot h Await_slot = False"
| "past_slot Channel_stream Await_capture = False"
| "past_slot h p = True"

definition counted_ok :: "session \<Rightarrow> bool" where
  "counted_ok x = (if countedStream x then past_slot (handler x) (pc x) else True)"

definition inv_count :: "state \<Rightarrow> bool" where
  "inv_count s =
     (activeStreams s = int (length (filter countedStream (sessions s)))
      \<and> list_all counted_ok (sessions s))"

definition before_slot :: "handler \<Rightarrow> pc \<Rightarrow> bool" where
  "before_slot h p = (\<not> past_slot h p \<and> p \<noteq> Await_slot)"

definition waiting :: "session \<Rightarrow> bool" where
  "waiting x = (pc x = Await_slot \<and> timer x = Some QUEUE_WAIT_MS \<and> slotOk x = None)"

definition inv_queue :: "state \<Rightarrow> bool" where
  "inv_queue s =
     (distinct (waiters s)
      \<and> (\<forall>w \<in> set (waiters s). w < length (sessions s) \<and> waiting (sessions s ! w)
             \<and> ticket (sessions s ! w) < pushes s)
      \<and> (\<forall>j < length (sessions s).
             (timer (sessions s ! j) \<noteq> None \<longrightarrow> j \<in> set (waiters s))
           \<and> (before_slot (handler (sessions s ! j)) (pc (sessions s ! j))
                \<longrightarrow> slotOk (sessions s ! j) = None))
      \<and> sorted_wrt (\<lambda>a b. ticket (sessions s ! a) < ticket (sessions s ! b)) (waiters s))"

definition once_ok :: "session \<Rightarrow> bool" where
  "once_ok x =
     (length (cleanups x) = (if cleanup_done x then 1 else 0) \<and> releases x \<le> length (cleanups x))"

definition inv_once :: "state \<Rightarrow> bool" where
  "inv_once s =
     ((\<forall>j < length (sessions s). once_ok (sessions s ! j))
      \<and> distinct (closes s)
      \<and> (\<forall>p \<in> set (closes s). p < newPages s)
      \<and> (\<forall>j < length (sessions s). \<forall>p. page (sessions s ! j) = Some p \<longrightarrow>
            p < newPages s
          \<and> (\<not> cleanup_done (sessions s ! j) \<longrightarrow> p \<notin> set (closes s))
          \<and> (\<forall>k < length (sessions s). page (sessions s ! k) = Some p \<longrightarrow> k = j)))"

definition wake :: "session \<Rightarrow> session" where
  "wake x = resolve True (x\<lparr>timer := None\<rparr>)"

definition expire :: "session \<Rightarrow> session" where
  "expire x = resolve False (x\<lparr>timer := None\<rparr>)"

definition cleaned :: "string \<Rightarrow> session \<Rightarrow> session" where
  "cleaned why x =
     x\<lparr>cleanup_done := True, cleanups := cleanups x @ [why],
       ffmpegProcess := map_option kill (ffmpegProcess x),
       stream := map_option (\<lambda>d. True) (stream x),
       countedStream := False,
       releases := releases x + (if countedStream x then 1 else 0)\<rparr>"

text \<open>Once the cleanup of a session has run, no event changes what it recorded.\<close>

definition done_part :: "session \<Rightarrow> bool \<times> string list \<times> nat" where
  "done_part x = (cleanup_done x, cleanups x, releases x)"

text \<open>Two sessions hold the two slots and a third one is queued behind them.\<close>

definition two_admitted_one_queued :: "event list" where
  "two_admitted_one_queued =
     [Get_stream_channel ''espn'', Settle 0 Fulfilled, Settle 0 Fulfilled, Settle 0 Fulfilled,
      Settle 0 Fulfilled,
      Get_stream_channel ''footy'', Settle 1 Fulfilled, Settle 1 Fulfilled, Settle 1 Fulfilled,
      Settle 1 Fulfilled,
      Get_stream_channel ''news'', Settle 2 Fulfilled, Settle 2 Fulfilled, Settle 2 Fulfilled]"

text \<open>Two sessions hold the two slots; a channel request and a legacy request queue up.\<close>

definition two_queued :: "event list" where
  "two_queued =
     [Get_stream_channel ''espn'', Settle 0 Fulfilled, Settle 0 Fulfilled, Settle 0 Fulfilled,
      Settle 0 Fulfilled,
      Get_stream_channel ''footy'', Settle 1 Fulfilled, Settle 1 Fulfilled, Settle 1 Fulfilled,
      Settle 1 Fulfilled,
      Get_stream_channel ''news'', Settle 2 Fulfilled, Settle 2 Fulfilled, Settle 2 Fulfilled,
      Get_stream (Some ''https://example.org/live''), Settle 3 Fulfilled, Settle 3 Fulfilled]"




text \<open>
  A session has consulted the admission control once its promise has a value, its timer is
  armed or it counts as an active stream. The stage a handler commits in the block in which
  it calls \<open>waitForStreamSlot\<close>.
\<close>

definition consulted :: "session \<Rightarrow> bool" where
  "consulted x = (slotOk x \<noteq> None \<or> timer x \<noteq> None \<or> countedStream x)"

definition gate_stage :: "handler \<Rightarrow> stage" where
  "gate_stage h = (case h of Channel_stream \<Rightarrow> CaptureStarted | Generic_stream \<Rightarrow> Navigated)"

definition consult_ok :: "session \<Rightarrow> bool" where
  "consult_ok x = (consulted x \<longrightarrow> gate_stage (handler x) \<in> set (stages x))"





text \<open>
  Two sessions hold the two slots and a third one is queued. The client of the queued one
  disconnects; then the client of the first session
  disconnects, which wakes the queued handler; it takes the slot
  and fails at the channel selection, on the page its cleanup has closed. At last the client of
  the second session disconnects as well.
\<close>

definition abort_while_queued :: "event list" where
  "abort_while_queued =
     two_admitted_one_queued
       @ [Emit 2 Req_aborted, Emit 0 Res_close, Settle 2 Fulfilled, Settle 2 Rejected,
          Emit 1 Res_close]"

text \<open>
  A channel request whose client disconnects while the handler awaits the fullscreen toggle;
  the toggle fails on the closed page, which is only logged, and the handler goes on to the
  piping block.
\<close>

definition abort_before_pipe :: "event list" where
  "abort_before_pipe =
     [Get_stream_channel ''espn'', Settle 0 Fulfilled, Settle 0 Fulfilled, Settle 0 Fulfilled,
      Settle 0 Fulfilled, Settle 0 (Evaluated tile_page), Settle 0 Fulfilled,
      Emit 0 Req_aborted, Settle 0 Rejected, Settle 0 Fulfilled]"

section \<open>Properties\<close>

lemma resolve_fields [simp]:
  "handler (resolve b x) = handler x" "pc (resolve b x) = pc x" "stages (resolve b x) = stages x"
  "page (resolve b x) = page x" "timer (resolve b x) = timer x" "ticket (resolve b x) = ticket x"
  "cleanup_done (resolve b x) = cleanup_done x" "countedStream (resolve b x) = countedStream x"
  "cleanups (resolve b x) = cleanups x" "releases (resolve b x) = releases x"
  "ffmpegProcess (resolve b x) = ffmpegProcess x" "stream (resolve b x) = stream x"
  "response (resolve b x) = response x"
  "slotOk (resolve b x) = (case slotOk x of None \<Rightarrow> Some b | Some v \<Rightarrow> Some v)"
  by (simp_all add: resolve_def split: option.splits)

lemma notify_nth:
  "sessions (notifyStreamSlot s) ! j = sessions s ! j
     \<or> sessions (notifyStreamSlot s) ! j = resolve True ((sessions s ! j)\<lparr>timer := None\<rparr>)"
proof (cases "waiters s")
  case Nil
  then show ?thesis by (simp add: notifyStreamSlot_def)
next
  case (Cons a list)
  show ?thesis
  proof (cases "j = a \<and> a < length (sessions s)")
    case True
    then show ?thesis using Cons by (simp add: notifyStreamSlot_def onSlot_def modify_def)
  next
    case False
    then have "(sessions s)[a := resolve True ((sessions s ! a)\<lparr>timer := None\<rparr>)] ! j = sessions s ! j"
      by (cases "a < length (sessions s)") (auto simp: list_update_beyond)
    then show ?thesis using Cons by (simp add: notifyStreamSlot_def onSlot_def modify_def)
  qed
qed

lemma nth_notify_fields:
  "page (sessions (notifyStreamSlot s) ! j) = page (sessions s ! j)"
  "cleanup_done (sessions (notifyStreamSlot s) ! j) = cleanup_done (sessions s ! j)"
  "cleanups (sessions (notifyStreamSlot s) ! j) = cleanups (sessions s ! j)"
  "releases (sessions (notifyStreamSlot s) ! j) = releases (sessions s ! j)"
  "countedStream (sessions (notifyStreamSlot s) ! j) = countedStream (sessions s ! j)"
  "ffmpegProcess (sessions (notifyStreamSlot s) ! j) = ffmpegProcess (sessions s ! j)"
  "stream (sessions (notifyStreamSlot s) ! j) = stream (sessions s ! j)"
  "handler (sessions (notifyStreamSlot s) ! j) = handler (sessions s ! j)"
  "pc (sessions (notifyStreamSlot s) ! j) = pc (sessions s ! j)"
  "stages (sessions (notifyStreamSlot s) ! j) = stages (sessions s ! j)"
  "response (sessions (notifyStreamSlot s) ! j) = response (sessions s ! j)"
  using notify_nth [of s j] by auto

lemma notify_state_fields:
  "closes (notifyStreamSlot s) = closes s"
  "length (sessions (notifyStreamSlot s)) = length (sessions s)"
  "activeStreams (notifyStreamSlot s) = activeStreams s"
  "pagesInUse (notifyStreamSlot s) = pagesInUse s"
  "newPages (notifyStreamSlot s) = newPages s"
  "waiters (notifyStreamSlot s) = tl (waiters s)"
  by (simp_all add: notifyStreamSlot_def onSlot_def modify_def split: list.splits)

text \<open>What one execution of the cleanup body does to its own session and to the shared state.\<close>

lemma cleanup_body:
  assumes "i < length (sessions s)" "\<not> cleanup_done (sessions s ! i)"
  shows "cleanup_done (sessions (cleanup i why s) ! i)"
    and "cleanups (sessions (cleanup i why s) ! i) = cleanups (sessions s ! i) @ [why]"
    and "ffmpegProcess (sessions (cleanup i why s) ! i) = map_option kill (ffmpegProcess (sessions s ! i))"
    and "stream (sessions (cleanup i why s) ! i) = map_option (\<lambda>d. True) (stream (sessions s ! i))"
    and "countedStream (sessions (cleanup i why s) ! i) = False"
    and "releases (sessions (cleanup i why s) ! i)
           = releases (sessions s ! i) + (if countedStream (sessions s ! i) then 1 else 0)"
    and "page (sessions (cleanup i why s) ! i) = page (sessions s ! i)"
    and "closes (cleanup i why s)
           = closes s @ (case page (sessions s ! i) of None \<Rightarrow> [] | Some p \<Rightarrow> [p])"
    and "activeStreams (cleanup i why s)
           = (if countedStream (sessions s ! i) \<and> 0 < activeStreams s then activeStreams s - 1
              else activeStreams s)"
    and "waiters (cleanup i why s)
           = (if countedStream (sessions s ! i) then tl (waiters s) else waiters s)"
  using assms
  by (simp_all add: cleanup_def Let_def releasePage_def modify_def nth_notify_fields
        notify_state_fields split: option.splits)

lemma cleanup_again: "cleanup_done (sessions s ! i) \<Longrightarrow> cleanup i why s = s"
  by (simp add: cleanup_def)

lemma length_cleanup [simp]: "length (sessions (cleanup i why s)) = length (sessions s)"
  by (simp add: cleanup_def Let_def releasePage_def modify_def notify_state_fields split: option.splits)

lemma length_object_keys: "length (object_keys obj) = length obj"
  unfolding object_keys_def using sum_length_filter_compl [of is_array_index "map fst obj"]
  by simp

lemma set_object_keys: "set (object_keys obj) = fst ` set obj"
  unfolding object_keys_def by auto

lemma those_with_channel:
  "set ks \<subseteq> fst ` set obj \<Longrightarrow>
     \<exists>es. those (map (with_channel obj) ks) = Some es \<and> map fst es = ks
          \<and> (\<forall>e \<in> set es. map_of obj (fst e) = Some (snd e))"
proof (induction ks)
  case Nil
  then show ?case by simp
next
  case (Cons k ks)
  then obtain es where es: "those (map (with_channel obj) ks) = Some es" "map fst es = ks"
      "\<forall>e \<in> set es. map_of obj (fst e) = Some (snd e)"
    by auto
  from Cons.prems have "k \<in> fst ` set obj" by simp
  then obtain ch where ch: "map_of obj k = Some ch"
    by (metis domD dom_map_of_conv_image_fst)
  then have "with_channel obj k = Some (k, ch)" by (simp add: with_channel_def)
  then show ?case using es ch by simp
qed

lemma channel_entries:
  "\<exists>es. those (map (with_channel obj) (object_keys obj)) = Some es
        \<and> map fst es = object_keys obj
        \<and> (\<forall>e \<in> set es. map_of obj (fst e) = Some (snd e))"
  by (rule those_with_channel) (simp add: set_object_keys)

lemma CHANNELS_keys:
  "object_keys CHANNELS =
     [''503'', ''505'', ''506'', ''507'', ''espn'', ''footy'', ''cricket'', ''league'', ''news'',
      ''racing'', ''ufc'', ''espn2'']"
  by code_simp

text \<open>
  C9. For every channel table: \<open>GET /lineup.json\<close> answers with a list that has one item
  per configured channel, in the order of \<open>Object.keys\<close>; the item of a key has the three
  fields \<open>GuideNumber\<close> (the channel's number printed in decimal), \<open>GuideName\<close> (its
  display name) and \<open>URL\<close> (\<open>protocol://host/stream/key\<close>). The entries of
  \<open>GET /playlist.m3u\<close> are the configured channels, each once, sorted ascending by
  channel number, and the playlist text is the header followed by their renderings.
\<close>

theorem lineup_and_playlist:
  "(\<exists>items. lineup_json obj protocol host = Some items
       \<and> length items = length (object_keys obj)
       \<and> length (object_keys obj) = length obj
       \<and> (\<forall>i < length items. \<exists>ch. map_of obj (object_keys obj ! i) = Some ch
             \<and> items ! i = \<lparr>GuideNumber = String_of_nat (ch_number ch), GuideName = ch_name ch,
                   URL = protocol @ ''://'' @ host @ ''/stream/'' @ object_keys obj ! i\<rparr>))
   \<and> (\<exists>es. playlist_entries obj = Some es
       \<and> sorted (map (\<lambda>kc. ch_number (snd kc)) es)
       \<and> length es = length obj
       \<and> set (map fst es) = fst ` set obj
       \<and> (\<forall>e \<in> set es. map_of obj (fst e) = Some (snd e))
       \<and> playlist_m3u obj protocol host
           = Some (''#EXTM3U'' @ [CHR 0x0A, CHR 0x0A]
                    @ join [CHR 0x0A, CHR 0x0A] (map (extinf protocol host) es)))"
proof -
  obtain es where es: "those (map (with_channel obj) (object_keys obj)) = Some es"
      "map fst es = object_keys obj" "\<forall>e \<in> set es. map_of obj (fst e) = Some (snd e)"
    using channel_entries by blast
  have len: "length es = length (object_keys obj)"
    using es(2) by (metis length_map)
  have item: "\<exists>ch. map_of obj (object_keys obj ! i) = Some ch
             \<and> map (lineup_entry protocol host) es ! i
               = \<lparr>GuideNumber = String_of_nat (ch_number ch), GuideName = ch_name ch,
                   URL = protocol @ ''://'' @ host @ ''/stream/'' @ object_keys obj ! i\<rparr>"
    if "i < length es" for i
  proof -
    have "fst (es ! i) = object_keys obj ! i"
      using es(2) that by (metis nth_map)
    moreover have "map_of obj (fst (es ! i)) = Some (snd (es ! i))"
      using es(3) that by simp
    ultimately show ?thesis
      using that by (simp add: lineup_entry_def stream_url_def)
  qed
  have A: "\<exists>items. lineup_json obj protocol host = Some items
       \<and> length items = length (object_keys obj)
       \<and> length (object_keys obj) = length obj
       \<and> (\<forall>i < length items. \<exists>ch. map_of obj (object_keys obj ! i) = Some ch
             \<and> items ! i = \<lparr>GuideNumber = String_of_nat (ch_number ch), GuideName = ch_name ch,
                   URL = protocol @ ''://'' @ host @ ''/stream/'' @ object_keys obj ! i\<rparr>)"
    using es(1) len item by (simp add: lineup_json_def length_object_keys)
  let ?ss = "sort_key (\<lambda>kc. ch_number (snd kc)) es"
  have B1: "playlist_entries obj = Some ?ss"
    using es(1) by (simp add: playlist_entries_def)
  have B2: "sorted (map (\<lambda>kc. ch_number (snd kc)) ?ss)"
    by (rule sorted_sort_key)
  have B3: "length ?ss = length obj"
    using len by (simp add: length_object_keys)
  have B4: "set (map fst ?ss) = fst ` set obj"
    using es(2) set_object_keys [of obj] by (metis set_map set_sort)
  have B5: "\<forall>e \<in> set ?ss. map_of obj (fst e) = Some (snd e)"
    using es(3) by simp
  have B6: "playlist_m3u obj protocol host
           = Some (''#EXTM3U'' @ [CHR 0x0A, CHR 0x0A]
                    @ join [CHR 0x0A, CHR 0x0A] (map (extinf protocol host) ?ss))"
    using B1 by (simp add: playlist_m3u_def)
  from A B1 B2 B3 B4 B5 B6 show ?thesis by blast
qed

theorem lineup_and_playlist_witness:
  "(\<exists>items. lineup_json CHANNELS ''http'' ''tuner:5589'' = Some items
       \<and> length items = 12
       \<and> items ! 4 = \<lparr>GuideNumber = ''509'', GuideName = ''ESPN'',
                        URL = ''http://tuner:5589/stream/espn''\<rparr>)
   \<and> (\<exists>es. playlist_entries CHANNELS = Some es
       \<and> sorted (map (\<lambda>kc. ch_number (snd kc)) es) \<and> length es = 12)"
proof -
  have k4: "object_keys CHANNELS ! 4 = ''espn''" by (simp add: CHANNELS_keys)
  have m: "map_of CHANNELS ''espn'' = Some (kayo ''5bce8eb9e4b0a8faf3c14a94'' ''ESPN'' 509)"
    by (simp add: CHANNELS_def)
  have n: "String_of_nat 509 = ''509''" by code_simp
  have l: "length CHANNELS = 12" by (simp add: CHANNELS_def)
  from lineup_and_playlist [of CHANNELS "''http''" "''tuner:5589''"]
  obtain items es where
    i: "lineup_json CHANNELS ''http'' ''tuner:5589'' = Some items"
       "length items = length (object_keys CHANNELS)" "length (object_keys CHANNELS) = length CHANNELS"
       "\<forall>i < length items. \<exists>ch. map_of CHANNELS (object_keys CHANNELS ! i) = Some ch
             \<and> items ! i = \<lparr>GuideNumber = String_of_nat (ch_number ch), GuideName = ch_name ch,
                   URL = ''http'' @ ''://'' @ ''tuner:5589'' @ ''/stream/'' @ object_keys CHANNELS ! i\<rparr>"
    and e: "playlist_entries CHANNELS = Some es" "sorted (map (\<lambda>kc. ch_number (snd kc)) es)"
       "length es = length CHANNELS"
    by blast
  have "4 < length items" using i(2) i(3) l by simp
  with i(4) obtain ch where c: "map_of CHANNELS (object_keys CHANNELS ! 4) = Some ch"
       "items ! 4 = \<lparr>GuideNumber = String_of_nat (ch_number ch), GuideName = ch_name ch,
                   URL = ''http'' @ ''://'' @ ''tuner:5589'' @ ''/stream/'' @ object_keys CHANNELS ! 4\<rparr>"
    by blast
  from c(1) k4 m have "ch = kayo ''5bce8eb9e4b0a8faf3c14a94'' ''ESPN'' 509" by simp
  then have "ch_number ch = 509" "ch_name ch = ''ESPN''" by (simp_all add: kayo_def)
  then have "items ! 4 = \<lparr>GuideNumber = ''509'', GuideName = ''ESPN'',
                        URL = ''http://tuner:5589/stream/espn''\<rparr>"
    using c(2) k4 n by simp
  then show ?thesis using i e l by simp
qed

lemma find_pointer_visible: "find pointer_sized up = Some f \<Longrightarrow> visible f"
  by (induction up) (auto simp: pointer_sized_def visible_def split: if_splits)

lemma walk_find:
  "walk up pf =
     (case find (\<lambda>e. semantic e \<and> visible e) up of
        Some e \<Rightarrow> Some (center e)
      | None \<Rightarrow>
          (case (case pf of Some f \<Rightarrow> Some f | None \<Rightarrow> find pointer_sized up) of
             Some f \<Rightarrow> if visible f then Some (center f) else None
           | None \<Rightarrow> None))"
proof (induction up arbitrary: pf)
  case Nil
  then show ?case by (simp split: option.splits)
next
  case (Cons a up)
  show ?case
  proof (cases "semantic a \<and> visible a")
    case True
    then show ?thesis by simp
  next
    case False
    then show ?thesis using Cons.IH by (auto split: option.splits)
  qed
qed

lemma walk_tile_target: "walk up None = map_option center (tile_target up)"
  by (auto simp: walk_find tile_target_def dest: find_pointer_visible split: option.splits)

lemma find_tile_usable:
  "find_tile slug images =
     (case find (usable slug) images of
        None \<Rightarrow> None
      | Some i \<Rightarrow> map_option center (tile_target (parents i)))"
proof (induction images)
  case Nil
  then show ?case by simp
next
  case (Cons i images)
  then show ?case
    by (cases "tile_target (parents i)") (auto simp: usable_def walk_tile_target)
qed

lemma center_in_box: "visible e \<Longrightarrow> in_box e (center e)"
  by (simp add: visible_def in_box_def center_def)

text \<open>
  C6 (as amended). The resolver takes the images in document order and stops at the first
  one whose non-empty source contains the slug and which has a usable target. For that
  image, if some ancestor below \<open>body\<close> is semantically clickable (tag \<open>A\<close> or
  \<open>BUTTON\<close>, role \<open>button\<close>, or an \<open>onclick\<close> attribute) and has a non-empty box (width
  and height above 0), the resolver succeeds with exactly one click, at the centre of the
  nearest such ancestor, which lies inside its box. If no ancestor is both, the click goes to
  the centre of the first ancestor of the walk whose box is wider and higher than 20 and
  whose cursor is \<open>pointer\<close>. If no image has a usable target, in particular if no image
  matches the slug, the resolver fails with a non-empty reason and clicks nowhere.
\<close>

theorem resolver_targets:
  "(find (usable slug) images = Some i
      \<and> find (\<lambda>e. semantic e \<and> visible e) (parents i) = Some a \<longrightarrow>
        tileClickDirectStrategy images slug
          = \<lparr>success = True, reason = None, clicks = [center a]\<rparr>
        \<and> matches slug i \<and> a \<in> set (parents i) \<and> semantic a \<and> in_box a (center a))
   \<and> (find (usable slug) images = Some i
      \<and> find (\<lambda>e. semantic e \<and> visible e) (parents i) = None \<longrightarrow>
        (\<exists>a. find pointer_sized (parents i) = Some a
           \<and> tileClickDirectStrategy images slug
                = \<lparr>success = True, reason = None, clicks = [center a]\<rparr>
           \<and> in_box a (center a)))
   \<and> (find (usable slug) images = None \<longrightarrow>
        tileClickDirectStrategy images slug
          = \<lparr>success = False, reason = Some ''Channel tile not found in page images.'',
             clicks = []\<rparr>)
   \<and> (\<not> list_ex (matches slug) images \<longrightarrow> find (usable slug) images = None)"
proof -
  have A: "tileClickDirectStrategy images slug
          = \<lparr>success = True, reason = None, clicks = [center a]\<rparr>
        \<and> matches slug i \<and> a \<in> set (parents i) \<and> semantic a \<and> in_box a (center a)"
    if u: "find (usable slug) images = Some i"
      and f: "find (\<lambda>e. semantic e \<and> visible e) (parents i) = Some a"
  proof -
    have "tile_target (parents i) = Some a" using f by (simp add: tile_target_def)
    then have "find_tile slug images = Some (center a)" using u by (simp add: find_tile_usable)
    then have r: "tileClickDirectStrategy images slug
          = \<lparr>success = True, reason = None, clicks = [center a]\<rparr>"
      by (simp add: tileClickDirectStrategy_def)
    have m: "matches slug i" using u by (auto simp: find_Some_iff usable_def)
    have a: "a \<in> set (parents i)" "semantic a" "visible a"
      using f by (auto simp: find_Some_iff)
    show ?thesis using r m a center_in_box by simp
  qed
  have B: "\<exists>a. find pointer_sized (parents i) = Some a
           \<and> tileClickDirectStrategy images slug
                = \<lparr>success = True, reason = None, clicks = [center a]\<rparr>
           \<and> in_box a (center a)"
    if u: "find (usable slug) images = Some i"
      and f: "find (\<lambda>e. semantic e \<and> visible e) (parents i) = None"
  proof -
    have "tile_target (parents i) \<noteq> None" using u by (auto simp: find_Some_iff usable_def)
    then obtain a where a: "find pointer_sized (parents i) = Some a" "tile_target (parents i) = Some a"
      using f by (auto simp: tile_target_def)
    then have "find_tile slug images = Some (center a)" using u by (simp add: find_tile_usable)
    then have "tileClickDirectStrategy images slug
          = \<lparr>success = True, reason = None, clicks = [center a]\<rparr>"
      by (simp add: tileClickDirectStrategy_def)
    then show ?thesis using a(1) find_pointer_visible [OF a(1)] center_in_box by blast
  qed
  have C: "tileClickDirectStrategy images slug
          = \<lparr>success = False, reason = Some ''Channel tile not found in page images.'',
             clicks = []\<rparr>"
    if "find (usable slug) images = None"
    using that by (simp add: tileClickDirectStrategy_def find_tile_usable)
  have D: "find (usable slug) images = None" if "\<not> list_ex (matches slug) images"
    using that by (auto simp: find_None_iff list_ex_iff usable_def)
  from A B C D show ?thesis by blast
qed

theorem resolver_targets_witness:
  "tileClickDirectStrategy tile_page ''5bce8eb9e4b0a8faf3c14a94''
     = \<lparr>success = True, reason = None, clicks = [(260, 130)]\<rparr>
   \<and> tileClickDirectStrategy pointer_page ''5bce8eb9e4b0a8faf3c14a94''
     = \<lparr>success = True, reason = None, clicks = [(110, 70)]\<rparr>
   \<and> tileClickDirectStrategy tile_page ''5bcefacfe4b0a8faf3c14ae2''
     = \<lparr>success = False, reason = Some ''Channel tile not found in page images.'', clicks = []\<rparr>"
proof -
  note T = resolver_targets
  have u1: "find (usable ''5bce8eb9e4b0a8faf3c14a94'') tile_page = Some (tile_page ! 1)"
    by code_simp
  have f1: "find (\<lambda>e. semantic e \<and> visible e) (parents (tile_page ! 1)) = Some tile_link"
    by code_simp
  have c1: "center tile_link = (260, 130)" by code_simp
  have r1: "tileClickDirectStrategy tile_page ''5bce8eb9e4b0a8faf3c14a94''
     = \<lparr>success = True, reason = None, clicks = [(260, 130)]\<rparr>"
    using T [of "''5bce8eb9e4b0a8faf3c14a94''" tile_page "tile_page ! 1" tile_link] u1 f1 c1 by simp
  have u2: "find (usable ''5bce8eb9e4b0a8faf3c14a94'') pointer_page = Some (pointer_page ! 0)"
    by code_simp
  have f2: "find (\<lambda>e. semantic e \<and> visible e) (parents (pointer_page ! 0)) = None"
    by code_simp
  have p2: "find pointer_sized (parents (pointer_page ! 0)) = Some pointer_div"
    by code_simp
  have c2: "center pointer_div = (110, 70)" by code_simp
  have r2: "tileClickDirectStrategy pointer_page ''5bce8eb9e4b0a8faf3c14a94''
     = \<lparr>success = True, reason = None, clicks = [(110, 70)]\<rparr>"
    using T [of "''5bce8eb9e4b0a8faf3c14a94''" pointer_page "pointer_page ! 0"] u2 f2 p2 c2 by auto
  have n3: "\<not> list_ex (matches ''5bcefacfe4b0a8faf3c14ae2'') tile_page" by code_simp
  have r3: "tileClickDirectStrategy tile_page ''5bcefacfe4b0a8faf3c14ae2''
     = \<lparr>success = False, reason = Some ''Channel tile not found in page images.'', clicks = []\<rparr>"
    using T [of "''5bcefacfe4b0a8faf3c14ae2''" tile_page] n3 by simp
  from r1 r2 r3 show ?thesis by simp
qed

text \<open>
  C6 as first stated fails where the semantically clickable ancestor has an empty box: the
  only image of the page matches the slug and sits in a link, yet the resolver reports
  failure and clicks nowhere.
\<close>

theorem resolver_hidden_link_counterexample:
  "matches ''5bce8eb9e4b0a8faf3c14a94'' (hd hidden_link_page)
   \<and> parents (hd hidden_link_page) = [hidden_link]
   \<and> semantic hidden_link
   \<and> tileClickDirectStrategy hidden_link_page ''5bce8eb9e4b0a8faf3c14a94''
       = \<lparr>success = False, reason = Some ''Channel tile not found in page images.'',
          clicks = []\<rparr>"
  by code_simp

lemma CHANNELS_lowercase: "list_all (\<lambda>k. toLowerCase k = k) (map fst CHANNELS)"
  by code_simp

lemma configured_key_lowercase: "map_of CHANNELS k = Some ch \<Longrightarrow> toLowerCase k = k"
proof -
  assume "map_of CHANNELS k = Some ch"
  then have "k \<in> set (map fst CHANNELS)" by (metis map_of_SomeD set_zip_leftD zip_map_fst_snd)
  then show ?thesis using CHANNELS_lowercase by (auto simp: list_all_iff)
qed

text \<open>
  C10. The lookup of \<open>GET /stream/:channelKey\<close> ignores letter case: a path key that
  differs from a configured key at most in the case of its letters is lowered to that key
  before \<open>CHANNELS\<close> is read, so the request starts a session for that channel and no 404
  reply is sent. Every configured key is its own lower-case form.
\<close>

theorem channel_lookup_ignores_case:
  "map_of CHANNELS k = Some ch \<and> toLowerCase raw = toLowerCase k \<longrightarrow>
     toLowerCase k = k
     \<and> property_get CHANNELS (toLowerCase raw) = Own ch
     \<and> get_stream_channel raw s
         = s\<lparr>sessions := sessions s @ [new_session Channel_stream (ch_slug ch)]\<rparr>
     \<and> replies (get_stream_channel raw s) = replies s"
proof (intro impI)
  assume a: "map_of CHANNELS k = Some ch \<and> toLowerCase raw = toLowerCase k"
  then have l: "toLowerCase k = k" using configured_key_lowercase by blast
  then have p: "property_get CHANNELS (toLowerCase raw) = Own ch"
    using a by (simp add: property_get_def)
  then have g: "get_stream_channel raw s
         = s\<lparr>sessions := sessions s @ [new_session Channel_stream (ch_slug ch)]\<rparr>"
    by (simp add: get_stream_channel_def Let_def)
  from l p g show "toLowerCase k = k
     \<and> property_get CHANNELS (toLowerCase raw) = Own ch
     \<and> get_stream_channel raw s
         = s\<lparr>sessions := sessions s @ [new_session Channel_stream (ch_slug ch)]\<rparr>
     \<and> replies (get_stream_channel raw s) = replies s"
    by simp
qed

theorem channel_lookup_ignores_case_witness:
  "property_get CHANNELS (toLowerCase ''EsPn'') = Own (kayo ''5bce8eb9e4b0a8faf3c14a94'' ''ESPN'' 509)
   \<and> sessions (get_stream_channel ''EsPn'' (init Mpegts))
        = [new_session Channel_stream ''5bce8eb9e4b0a8faf3c14a94'']
   \<and> replies (get_stream_channel ''EsPn'' (init Mpegts)) = []"
proof -
  have m: "map_of CHANNELS ''espn'' = Some (kayo ''5bce8eb9e4b0a8faf3c14a94'' ''ESPN'' 509)"
    by (simp add: CHANNELS_def)
  have t: "toLowerCase ''EsPn'' = toLowerCase ''espn''" by code_simp
  have T: "property_get CHANNELS (toLowerCase ''EsPn'')
             = Own (kayo ''5bce8eb9e4b0a8faf3c14a94'' ''ESPN'' 509)
     \<and> get_stream_channel ''EsPn'' (init Mpegts)
         = (init Mpegts)\<lparr>sessions := sessions (init Mpegts)
              @ [new_session Channel_stream (ch_slug (kayo ''5bce8eb9e4b0a8faf3c14a94'' ''ESPN'' 509))]\<rparr>
     \<and> replies (get_stream_channel ''EsPn'' (init Mpegts)) = replies (init Mpegts)"
    using channel_lookup_ignores_case
      [of "''espn''" "kayo ''5bce8eb9e4b0a8faf3c14a94'' ''ESPN'' 509" "''EsPn''" "init Mpegts"] m t
    by blast
  have i: "sessions (init Mpegts) = []" "replies (init Mpegts) = []"
    by (simp_all add: init_def)
  have k: "ch_slug (kayo ''5bce8eb9e4b0a8faf3c14a94'' ''ESPN'' 509) = ''5bce8eb9e4b0a8faf3c14a94''"
    by (simp add: kayo_def)
  from T i k show ?thesis by simp
qed

text \<open>
  The reply to a key for which \<open>CHANNELS[key]\<close> is \<open>undefined\<close>: 404 with the list of the
  configured keys, and nothing else changes.
\<close>

lemma undefined_key_404:
  "property_get CHANNELS (toLowerCase raw) = Undefined \<Longrightarrow>
     step (Get_stream_channel raw) s
       = s\<lparr>replies := replies s
              @ [(404, ''Channel not found. Available channels: ''
                        @ ''503, 505, 506, 507, espn, footy, cricket, league, news, racing, ufc, espn2'')]\<rparr>"
proof -
  have "join '', '' (object_keys CHANNELS)
          = ''503, 505, 506, 507, espn, footy, cricket, league, news, racing, ufc, espn2''"
    by code_simp
  then show "property_get CHANNELS (toLowerCase raw) = Undefined \<Longrightarrow> ?thesis"
    by (simp add: get_stream_channel_def Let_def)
qed

text \<open>
  C7 (the code departs from the claim). The key \<open>constructor\<close> is not a configured
  channel, but \<open>CHANNELS['constructor']\<close> is the inherited \<open>Object\<close> function, which is
  truthy: the handler sends no 404, starts a session, launches the browser and creates a
  page.
\<close>

theorem inherited_key_starts_session:
  "List.member (object_keys CHANNELS) (toLowerCase ''constructor'') = False
   \<and> property_get CHANNELS (toLowerCase ''constructor'') = Inherited
   \<and> replies (run [Get_stream_channel ''constructor'', Settle 0 Fulfilled] (init Mpegts)) = []
   \<and> length (sessions (run [Get_stream_channel ''constructor'', Settle 0 Fulfilled] (init Mpegts))) = 1
   \<and> page (sessions (run [Get_stream_channel ''constructor'', Settle 0 Fulfilled] (init Mpegts)) ! 0)
        = Some 0
   \<and> newPages (run [Get_stream_channel ''constructor'', Settle 0 Fulfilled] (init Mpegts)) = 1
   \<and> currentBrowser (run [Get_stream_channel ''constructor'', Settle 0 Fulfilled] (init Mpegts))
   \<and> 0 \<in> pagesInUse (run [Get_stream_channel ''constructor'', Settle 0 Fulfilled] (init Mpegts))"
  by code_simp

text \<open>
  C2 (the code departs from the claim). Three sessions call \<open>waitForStreamSlot\<close> while
  \<open>activeStreams\<close> is 0; each gets a promise already resolved to \<open>true\<close>, and each
  continuation then increments the counter: it reaches 3, above the capacity 2.
\<close>

theorem activeStreams_exceeds_capacity:
  "activeStreams (run three_at_once (init Mpegts)) = 3
   \<and> MAX_CONCURRENT_STREAMS = 2
   \<and> map countedStream (sessions (run three_at_once (init Mpegts))) = [True, True, True]"
  by code_simp

lemma map_update_same: "(\<And>x. g (h x) = g x) \<Longrightarrow> map g (xs[i := h (xs ! i)]) = map g xs"
  by (cases "i < length xs") (simp_all add: map_update list_update_same_conv list_update_beyond)


lemma core_modify_same:
  "(\<And>x. core (f x) = core x) \<Longrightarrow> map core (sessions (modify i f s)) = map core (sessions s)"
  by (simp add: modify_def map_update_same)

lemma core_notify [simp]: "map core (sessions (notifyStreamSlot s)) = map core (sessions s)"
  by (simp add: notifyStreamSlot_def onSlot_def core_modify_same core_def split: list.splits)

lemma core_onTimeout [simp]: "map core (sessions (onTimeout i s)) = map core (sessions s)"
  by (simp add: onTimeout_def core_modify_same core_def)

lemma core_waitForStreamSlot [simp]:
  "map core (sessions (waitForStreamSlot i ms s)) = map core (sessions s)"
  by (simp add: waitForStreamSlot_def core_modify_same core_def)

lemma core_acquirePage [simp]: "map core (sessions (acquirePage i s)) = map core (sessions s)"
  by (simp add: acquirePage_def core_modify_same core_def)

lemma core_take_slot [simp]: "map core (sessions (take_slot i s)) = map core (sessions s)"
  by (simp add: take_slot_def core_modify_same core_def)

lemma core_releasePage [simp]: "sessions (releasePage pg s) = sessions s"
  by (simp add: releasePage_def split: option.splits)

lemma core_cleanup [simp]: "map core (sessions (cleanup i why s)) = map core (sessions s)"
  by (simp add: cleanup_def Let_def core_modify_same core_def)

lemma nth_core:
  "map core xs' = ys \<Longrightarrow> j < length ys \<Longrightarrow> core (xs' ! j) = ys ! j"
  by (metis length_map nth_map)





lemma count_update:
  "i < length xs \<Longrightarrow>
     int (length (filter P (xs[i := y])))
       = int (length (filter P xs)) - (if P (xs ! i) then 1 else 0) + (if P y then 1 else 0)"
proof (induction xs arbitrary: i)
  case Nil
  then show ?case by simp
next
  case (Cons x xs)
  show ?case
  proof (cases i)
    case 0
    then show ?thesis by simp
  next
    case (Suc n)
    then have "n < length xs" using Cons.prems by simp
    from Cons.IH [OF this] show ?thesis using Suc
      by (cases "P (xs ! n)"; cases "P y"; cases "P x"; simp)
  qed
qed

lemma count_update_same:
  "P y = P (xs ! i) \<Longrightarrow> length (filter P (xs[i := y])) = length (filter P xs)"
proof (cases "i < length xs")
  case True
  assume "P y = P (xs ! i)"
  with count_update [OF True, of P y] show ?thesis by simp
next
  case False
  then show ?thesis by (simp add: list_update_beyond)
qed

lemma list_all_update:
  "list_all P xs \<Longrightarrow> (i < length xs \<Longrightarrow> P (xs ! i) \<Longrightarrow> P y) \<Longrightarrow> list_all P (xs[i := y])"
  unfolding list_all_iff
  by (metis in_set_conv_nth length_list_update nth_list_update_eq nth_list_update_neq nth_mem)

lemma inv_count_modify:
  assumes "inv_count s"
    and "countedStream (f (sessions s ! i)) = countedStream (sessions s ! i)"
    and "counted_ok (sessions s ! i) \<Longrightarrow> counted_ok (f (sessions s ! i))"
  shows "inv_count (modify i f s)"
  using assms by (simp add: inv_count_def modify_def count_update_same list_all_update)

lemma inv_count_others [simp]:
  "inv_count (s\<lparr>waiters := ws\<rparr>) = inv_count s"
  "inv_count (s\<lparr>pushes := n\<rparr>) = inv_count s"
  "inv_count (s\<lparr>replies := rs\<rparr>) = inv_count s"
  "inv_count (s\<lparr>currentBrowser := b\<rparr>) = inv_count s"
  "inv_count (s\<lparr>newPages := n\<rparr>) = inv_count s"
  "inv_count (s\<lparr>pagesInUse := ps\<rparr>) = inv_count s"
  "inv_count (s\<lparr>closes := cs\<rparr>) = inv_count s"
  by (simp_all add: inv_count_def)

lemma inv_count_notify: "inv_count s \<Longrightarrow> inv_count (notifyStreamSlot s)"
  by (auto simp: notifyStreamSlot_def onSlot_def counted_ok_def intro!: inv_count_modify split: list.splits)

lemma inv_count_onTimeout: "inv_count s \<Longrightarrow> inv_count (onTimeout i s)"
  by (auto simp: onTimeout_def counted_ok_def intro!: inv_count_modify)

lemma inv_count_waitForStreamSlot:
  "inv_count s \<Longrightarrow> inv_count (waitForStreamSlot i ms s)"
  by (auto simp: waitForStreamSlot_def counted_ok_def intro!: inv_count_modify)

lemma inv_count_acquirePage: "inv_count s \<Longrightarrow> inv_count (acquirePage i s)"
  by (auto simp: acquirePage_def counted_ok_def intro!: inv_count_modify)

lemma inv_count_releasePage: "inv_count s \<Longrightarrow> inv_count (releasePage pg s)"
  by (auto simp: releasePage_def split: option.splits)

lemma counted_positive:
  "inv_count s \<Longrightarrow> i < length (sessions s) \<Longrightarrow> countedStream (sessions s ! i) \<Longrightarrow> 0 < activeStreams s"
proof -
  assume a: "inv_count s" "i < length (sessions s)" "countedStream (sessions s ! i)"
  then have "sessions s ! i \<in> set (filter countedStream (sessions s))" by simp
  then have "filter countedStream (sessions s) \<noteq> []" by (metis empty_iff empty_set)
  then show ?thesis using a(1) by (simp add: inv_count_def)
qed

lemma inv_count_release:
  assumes "inv_count s" "i < length (sessions s)" "countedStream (sessions s ! i)"
  shows "inv_count (modify i (\<lambda>x. x\<lparr>countedStream := False, releases := releases x + 1\<rparr>)
            (s\<lparr>activeStreams := (if activeStreams s > 0 then activeStreams s - 1 else activeStreams s)\<rparr>))"
  using assms counted_positive [OF assms]
  by (simp add: inv_count_def modify_def count_update list_all_update counted_ok_def)

lemma inv_count_cleanup:
  assumes "inv_count s" "i < length (sessions s)"
  shows "inv_count (cleanup i why s)"
proof (cases "cleanup_done (sessions s ! i)")
  case True
  then show ?thesis using assms by (simp add: cleanup_def)
next
  case False
  let ?f = "\<lambda>x. x\<lparr>cleanup_done := True, cleanups := cleanups x @ [why],
                   ffmpegProcess := map_option kill (ffmpegProcess x),
                   stream := map_option (\<lambda>d. True) (stream x)\<rparr>"
  let ?s1 = "modify i ?f s"
  have s1: "inv_count ?s1"
    using assms(1) by (auto intro!: inv_count_modify simp: counted_ok_def)
  have l1: "i < length (sessions ?s1)" using assms(2) by (simp add: modify_def)
  have c1: "countedStream (sessions ?s1 ! i) = countedStream (sessions s ! i)"
    using assms(2) by (simp add: modify_def)
  show ?thesis
  proof (cases "countedStream (sessions s ! i)")
    case True
    then have "inv_count (notifyStreamSlot
                 (modify i (\<lambda>x. x\<lparr>countedStream := False, releases := releases x + 1\<rparr>)
                   (?s1\<lparr>activeStreams := (if activeStreams ?s1 > 0 then activeStreams ?s1 - 1
                                           else activeStreams ?s1)\<rparr>)))"
      using inv_count_release [OF s1 l1] c1 by (intro inv_count_notify) simp
    then show ?thesis
      using False True by (simp add: cleanup_def Let_def inv_count_releasePage)
  next
    case c: False
    then show ?thesis
      using False s1 by (simp add: cleanup_def Let_def inv_count_releasePage)
  qed
qed

lemma past_slot_Returned [simp]: "past_slot h Returned"
  by (cases h) simp_all

lemma inv_count_fail:
  assumes "inv_count s" "i < length (sessions s)"
  shows "inv_count (fail i code body why s)"
proof -
  let ?s0 = "modify i (\<lambda>x. x\<lparr>response := Some (code, body)\<rparr>) s"
  have "inv_count ?s0" using assms(1) by (auto intro!: inv_count_modify simp: counted_ok_def)
  moreover have "i < length (sessions ?s0)" using assms(2) by (simp add: modify_def)
  ultimately have "inv_count (cleanup i why ?s0)" by (rule inv_count_cleanup)
  then show ?thesis
    unfolding fail_def by (auto intro!: inv_count_modify simp: counted_ok_def)
qed

lemma inv_count_take_slot:
  assumes "inv_count s" "i < length (sessions s)" "pc (sessions s ! i) = Await_slot"
    and "past_slot (handler (sessions s ! i)) p"
  shows "inv_count (modify i (enter SlotAcquired p) (take_slot i s))"
proof -
  have "counted_ok (sessions s ! i)"
    using assms(1,2) by (simp add: inv_count_def list_all_length)
  then have n: "\<not> countedStream (sessions s ! i)"
    using assms(3) by (auto simp: counted_ok_def split: if_splits)
  show ?thesis
    using assms n
    by (simp add: inv_count_def modify_def take_slot_def enter_def count_update list_all_update
        counted_ok_def)
qed

lemma inv_count_advance:
  assumes "inv_count s" "i < length (sessions s)"
    and "countedStream (f (sessions s ! i)) = countedStream (sessions s ! i)"
    and "handler (f (sessions s ! i)) = handler (sessions s ! i)"
    and "past_slot (handler (sessions s ! i)) (pc (sessions s ! i))
           \<Longrightarrow> past_slot (handler (sessions s ! i)) (pc (f (sessions s ! i)))"
  shows "inv_count (modify i f s)"
  using assms by (intro inv_count_modify) (auto simp: counted_ok_def split: if_splits)

lemma inv_count_resume:
  assumes "inv_count s" "i < length (sessions s)"
    and "handler (sessions s ! i) = h" "pc (sessions s ! i) = p"
  shows "inv_count (resume h p out i s)"
proof -
  let ?x = "sessions s ! i"
  have ok: "counted_ok ?x"
    using assms(1,2) by (simp add: inv_count_def list_all_length)
  then have n: "countedStream ?x \<longrightarrow> past_slot h p"
    using assms(3,4) by (simp add: counted_ok_def split: if_splits)
  have F1: "\<And>f. countedStream (f ?x) = countedStream ?x \<Longrightarrow>
              (countedStream ?x \<longrightarrow> past_slot (handler (f ?x)) (pc (f ?x))) \<Longrightarrow>
              inv_count (modify i f s)"
    using assms(1) by (intro inv_count_modify) (auto simp: counted_ok_def)
  have F2: "\<And>f. countedStream (f (?x\<lparr>page := Some (newPages s)\<rparr>)) = countedStream ?x \<Longrightarrow>
              (countedStream ?x \<longrightarrow> past_slot (handler (f (?x\<lparr>page := Some (newPages s)\<rparr>)))
                  (pc (f (?x\<lparr>page := Some (newPages s)\<rparr>)))) \<Longrightarrow>
              inv_count (modify i f (acquirePage i s))"
    using inv_count_acquirePage [OF assms(1), of i] assms(2)
    by (intro inv_count_modify) (auto simp: counted_ok_def acquirePage_def modify_def)
  have F3: "\<And>f ms. inv_count (modify i f s) \<Longrightarrow> inv_count (waitForStreamSlot i ms (modify i f s))"
    by (rule inv_count_waitForStreamSlot)
  have F4: "\<And>q. past_slot h q \<Longrightarrow> p = Await_slot \<Longrightarrow> inv_count (modify i (enter SlotAcquired q) (take_slot i s))"
    using inv_count_take_slot [OF assms(1,2)] assms(3,4) by simp
  show ?thesis
    using assms n
    by (cases h; cases p; cases out)
       (simp_all add: inv_count_fail F1 F2 F3 F4 Let_def enter_def pipe_def
         split: option.splits bool.splits)
qed

lemma inv_count_step:
  assumes "inv_count s"
  shows "inv_count (step e s)"
proof (cases e)
  case (Get_stream_channel raw)
  with assms show ?thesis
    by (auto simp: get_stream_channel_def Let_def inv_count_def new_session_def counted_ok_def)
next
  case (Get_stream u)
  with assms show ?thesis
    by (auto simp: get_stream_def inv_count_def new_session_def counted_ok_def)
next
  case (Settle i out)
  with assms show ?thesis by (simp add: inv_count_resume)
next
  case (Emit i t)
  with assms show ?thesis by (simp add: inv_count_cleanup)
next
  case (Timer_fired i)
  with assms show ?thesis by (simp add: inv_count_onTimeout)
next
  case (Ffmpeg_exit i code signal)
  with assms show ?thesis by (simp add: inv_count_cleanup split: option.splits)
next
  case Browser_disconnected
  with assms show ?thesis by simp
qed

lemma inv_count_run: "inv_count s \<Longrightarrow> inv_count (run es s)"
  by (induction es arbitrary: s) (simp_all add: inv_count_step)

lemma inv_count_init: "inv_count (init fmt)"
  by (simp add: inv_count_def init_def)

lemma all_nth_update:
  "(\<forall>j < length (xs[i := y]). P j (xs[i := y] ! j))
     = ((i < length xs \<longrightarrow> P i y) \<and> (\<forall>j < length xs. j \<noteq> i \<longrightarrow> P j (xs ! j)))"
proof -
  have "P j (xs[i := y] ! j) = (if j = i then P i y else P j (xs ! j))" if "j < length xs" for j
    using that by (cases "j = i") simp_all
  then show ?thesis by auto
qed

lemma ball_nth_update:
  assumes "\<forall>w \<in> A. w < length xs"
  shows "(\<forall>w \<in> A. Q w (xs[i := y] ! w))
           = ((i \<in> A \<longrightarrow> Q i y) \<and> (\<forall>w \<in> A. w \<noteq> i \<longrightarrow> Q w (xs ! w)))"
proof -
  have "Q w (xs[i := y] ! w) = (if w = i then Q i y else Q w (xs ! w))" if "w \<in> A" for w
    using that assms by (cases "w = i") simp_all
  then show ?thesis by auto
qed

lemma sorted_wrt_remove1: "sorted_wrt P xs \<Longrightarrow> sorted_wrt P (remove1 x xs)"
proof (induction xs)
  case Nil
  then show ?case by simp
next
  case (Cons a xs)
  have "set (remove1 x xs) \<subseteq> set xs" by (rule set_remove1_subset)
  then show ?case using Cons by auto
qed

lemma sorted_wrt_ticket_update:
  assumes "sorted_wrt (\<lambda>a b. ticket (xs ! a) < ticket (xs ! b)) ws"
    and "\<forall>a \<in> set ws. ticket (xs' ! a) = ticket (xs ! a)"
  shows "sorted_wrt (\<lambda>a b. ticket (xs' ! a) < ticket (xs' ! b)) ws"
  using assms(1) by (rule sorted_wrt_mono_rel [rotated]) (simp add: assms(2))

lemma inv_queue_modify:
  assumes "inv_queue s"
    and "i \<in> set (waiters s) \<Longrightarrow>
           waiting (f (sessions s ! i)) \<and> ticket (f (sessions s ! i)) = ticket (sessions s ! i)"
    and "timer (f (sessions s ! i)) \<noteq> None \<Longrightarrow> i \<in> set (waiters s)"
    and "before_slot (handler (f (sessions s ! i))) (pc (f (sessions s ! i)))
           \<Longrightarrow> slotOk (f (sessions s ! i)) = None"
  shows "inv_queue (modify i f s)"
proof -
  let ?ss = "sessions s" and ?ss' = "(sessions s)[i := f (sessions s ! i)]"
  have bound: "\<forall>w \<in> set (waiters s). w < length ?ss"
    using assms(1) by (simp add: inv_queue_def)
  have t: "\<forall>a \<in> set (waiters s). ticket (?ss' ! a) = ticket (?ss ! a)"
    using assms(2) by (simp add: ball_nth_update [OF bound, where Q = "\<lambda>a z. ticket z = ticket (?ss ! a)"])
  have "sorted_wrt (\<lambda>a b. ticket (?ss ! a) < ticket (?ss ! b)) (waiters s)"
    using assms(1) by (simp add: inv_queue_def)
  then have srt: "sorted_wrt (\<lambda>a b. ticket (?ss' ! a) < ticket (?ss' ! b)) (waiters s)"
    using t by (rule sorted_wrt_ticket_update)
  have w: "\<forall>w \<in> set (waiters s). waiting (?ss' ! w) \<and> ticket (?ss' ! w) < pushes s"
    using assms(1,2) by (simp add: ball_nth_update [OF bound, where Q = "\<lambda>a z. waiting z \<and> ticket z < pushes s"] inv_queue_def)
  have j: "\<forall>j < length ?ss'.
             (timer (?ss' ! j) \<noteq> None \<longrightarrow> j \<in> set (waiters s))
           \<and> (before_slot (handler (?ss' ! j)) (pc (?ss' ! j)) \<longrightarrow> slotOk (?ss' ! j) = None)"
  proof (intro allI impI)
    fix j assume "j < length ?ss'"
    then have jl: "j < length ?ss" by simp
    then have "(timer (?ss ! j) \<noteq> None \<longrightarrow> j \<in> set (waiters s))
           \<and> (before_slot (handler (?ss ! j)) (pc (?ss ! j)) \<longrightarrow> slotOk (?ss ! j) = None)"
      using assms(1) by (simp add: inv_queue_def)
    then show "(timer (?ss' ! j) \<noteq> None \<longrightarrow> j \<in> set (waiters s))
           \<and> (before_slot (handler (?ss' ! j)) (pc (?ss' ! j)) \<longrightarrow> slotOk (?ss' ! j) = None)"
      using assms(3,4) jl by (cases "j = i") auto
  qed
  have d: "distinct (waiters s)" using assms(1) by (simp add: inv_queue_def)
  have w': "\<forall>w \<in> set (waiters s). w < length ?ss' \<and> waiting (?ss' ! w) \<and> ticket (?ss' ! w) < pushes s"
    using w bound by simp
  have eq: "sessions (modify i f s) = ?ss'" "waiters (modify i f s) = waiters s"
      "pushes (modify i f s) = pushes s"
    by (simp_all add: modify_def)
  show ?thesis
    unfolding inv_queue_def eq using d w' j srt by blast
qed

lemma inv_queue_others [simp]:
  "inv_queue (s\<lparr>activeStreams := a\<rparr>) = inv_queue s"
  "inv_queue (s\<lparr>replies := rs\<rparr>) = inv_queue s"
  "inv_queue (s\<lparr>currentBrowser := b\<rparr>) = inv_queue s"
  "inv_queue (s\<lparr>newPages := n\<rparr>) = inv_queue s"
  "inv_queue (s\<lparr>pagesInUse := ps\<rparr>) = inv_queue s"
  "inv_queue (s\<lparr>closes := cs\<rparr>) = inv_queue s"
  by (simp_all add: inv_queue_def)

lemma inv_queue_same:
  assumes "inv_queue s"
    and "pc (f (sessions s ! i)) = pc (sessions s ! i)"
    and "handler (f (sessions s ! i)) = handler (sessions s ! i)"
    and "timer (f (sessions s ! i)) = timer (sessions s ! i)"
    and "slotOk (f (sessions s ! i)) = slotOk (sessions s ! i)"
    and "ticket (f (sessions s ! i)) = ticket (sessions s ! i)"
  shows "inv_queue (modify i f s)"
proof (cases "i < length (sessions s)")
  case True
  have a: "i \<in> set (waiters s) \<Longrightarrow> waiting (sessions s ! i)"
    using assms(1) by (simp add: inv_queue_def)
  have b: "timer (sessions s ! i) \<noteq> None \<Longrightarrow> i \<in> set (waiters s)"
    using assms(1) True by (simp add: inv_queue_def)
  have c: "before_slot (handler (sessions s ! i)) (pc (sessions s ! i)) \<Longrightarrow> slotOk (sessions s ! i) = None"
    using assms(1) True by (simp add: inv_queue_def)
  show ?thesis
    using assms a b c by (intro inv_queue_modify) (simp_all add: waiting_def)
next
  case False
  then show ?thesis using assms(1) by (simp add: modify_def list_update_beyond)
qed

lemma inv_queue_notify:
  assumes "inv_queue s"
  shows "inv_queue (notifyStreamSlot s)"
proof (cases "waiters s")
  case Nil
  then show ?thesis using assms by (simp add: notifyStreamSlot_def)
next
  case (Cons w rest)
  let ?ss = "sessions s"
  let ?y = "resolve True ((?ss ! w)\<lparr>timer := None\<rparr>)"
  let ?ss' = "?ss[w := ?y]"
  have d: "w \<notin> set rest" "distinct rest"
    using assms Cons by (auto simp: inv_queue_def)
  have bound: "\<forall>v \<in> set rest. v < length ?ss"
    using assms Cons by (simp add: inv_queue_def)
  have wl: "w < length ?ss" using assms Cons by (simp add: inv_queue_def)
  have ww: "waiting (?ss ! w)" using assms Cons by (simp add: inv_queue_def)
  have t: "\<forall>a \<in> set rest. ticket (?ss' ! a) = ticket (?ss ! a)"
    using d by (simp add: ball_nth_update [OF bound, where Q = "\<lambda>a z. ticket z = ticket (?ss ! a)"])
  have "sorted_wrt (\<lambda>a b. ticket (?ss ! a) < ticket (?ss ! b)) rest"
    using assms Cons by (simp add: inv_queue_def)
  then have srt: "sorted_wrt (\<lambda>a b. ticket (?ss' ! a) < ticket (?ss' ! b)) rest"
    using t by (rule sorted_wrt_ticket_update)
  have w: "\<forall>v \<in> set rest. waiting (?ss' ! v) \<and> ticket (?ss' ! v) < pushes s"
    using assms Cons d by (simp add: ball_nth_update [OF bound, where Q = "\<lambda>a z. waiting z \<and> ticket z < pushes s"] inv_queue_def)
  have j0: "\<forall>j < length ?ss. (timer (?ss ! j) \<noteq> None \<longrightarrow> j = w \<or> j \<in> set rest)
           \<and> (before_slot (handler (?ss ! j)) (pc (?ss ! j)) \<longrightarrow> slotOk (?ss ! j) = None)"
    using assms Cons by (simp add: inv_queue_def)
  have j: "\<forall>j < length ?ss'.
             (timer (?ss' ! j) \<noteq> None \<longrightarrow> j \<in> set rest)
           \<and> (before_slot (handler (?ss' ! j)) (pc (?ss' ! j)) \<longrightarrow> slotOk (?ss' ! j) = None)"
  proof (intro allI impI)
    fix j assume "j < length ?ss'"
    then have jl: "j < length ?ss" by simp
    show "(timer (?ss' ! j) \<noteq> None \<longrightarrow> j \<in> set rest)
           \<and> (before_slot (handler (?ss' ! j)) (pc (?ss' ! j)) \<longrightarrow> slotOk (?ss' ! j) = None)"
      using j0 ww jl by (cases "j = w") (auto simp: waiting_def before_slot_def)
  qed
  have w': "\<forall>v \<in> set rest. v < length ?ss' \<and> waiting (?ss' ! v) \<and> ticket (?ss' ! v) < pushes s"
    using w bound by simp
  have eq: "sessions (notifyStreamSlot s) = ?ss'" "waiters (notifyStreamSlot s) = rest"
      "pushes (notifyStreamSlot s) = pushes s"
    using Cons by (simp_all add: notifyStreamSlot_def onSlot_def modify_def)
  show ?thesis
    unfolding inv_queue_def eq using d(2) w' j srt by blast
qed

lemma inv_queue_onTimeout:
  assumes "inv_queue s" "i < length (sessions s)" "timer (sessions s ! i) \<noteq> None"
  shows "inv_queue (onTimeout i s)"
proof -
  let ?ss = "sessions s"
  let ?y = "resolve False ((?ss ! i)\<lparr>timer := None\<rparr>)"
  let ?ss' = "?ss[i := ?y]"
  let ?ws = "remove1 i (waiters s)"
  have iw: "i \<in> set (waiters s)" using assms by (simp add: inv_queue_def)
  have d: "distinct (waiters s)" using assms by (simp add: inv_queue_def)
  then have ni: "i \<notin> set ?ws" "distinct ?ws" and sw: "set ?ws = set (waiters s) - {i}" by auto
  have bound: "\<forall>v \<in> set ?ws. v < length ?ss"
    using assms(1) sw by (simp add: inv_queue_def)
  have wi: "waiting (?ss ! i)" using assms(1) iw by (simp add: inv_queue_def)
  have t: "\<forall>a \<in> set ?ws. ticket (?ss' ! a) = ticket (?ss ! a)"
    using ni by (simp add: ball_nth_update [OF bound, where Q = "\<lambda>a z. ticket z = ticket (?ss ! a)"])
  have "sorted_wrt (\<lambda>a b. ticket (?ss ! a) < ticket (?ss ! b)) (waiters s)"
    using assms by (simp add: inv_queue_def)
  then have "sorted_wrt (\<lambda>a b. ticket (?ss ! a) < ticket (?ss ! b)) ?ws"
    by (rule sorted_wrt_remove1)
  then have srt: "sorted_wrt (\<lambda>a b. ticket (?ss' ! a) < ticket (?ss' ! b)) ?ws"
    using t by (rule sorted_wrt_ticket_update)
  have w: "\<forall>v \<in> set ?ws. waiting (?ss' ! v) \<and> ticket (?ss' ! v) < pushes s"
    using assms(1) ni sw by (simp add: ball_nth_update [OF bound, where Q = "\<lambda>a z. waiting z \<and> ticket z < pushes s"] inv_queue_def)
  have j0: "\<forall>j < length ?ss. (timer (?ss ! j) \<noteq> None \<longrightarrow> j \<in> set (waiters s))
           \<and> (before_slot (handler (?ss ! j)) (pc (?ss ! j)) \<longrightarrow> slotOk (?ss ! j) = None)"
    using assms by (simp add: inv_queue_def)
  have j: "\<forall>j < length ?ss'.
             (timer (?ss' ! j) \<noteq> None \<longrightarrow> j \<in> set ?ws)
           \<and> (before_slot (handler (?ss' ! j)) (pc (?ss' ! j)) \<longrightarrow> slotOk (?ss' ! j) = None)"
  proof (intro allI impI)
    fix j assume "j < length ?ss'"
    then have jl: "j < length ?ss" by simp
    show "(timer (?ss' ! j) \<noteq> None \<longrightarrow> j \<in> set ?ws)
           \<and> (before_slot (handler (?ss' ! j)) (pc (?ss' ! j)) \<longrightarrow> slotOk (?ss' ! j) = None)"
      using j0 wi sw jl by (cases "j = i") (auto simp: waiting_def before_slot_def)
  qed
  have w': "\<forall>v \<in> set ?ws. v < length ?ss' \<and> waiting (?ss' ! v) \<and> ticket (?ss' ! v) < pushes s"
    using w bound by simp
  have eq: "sessions (onTimeout i s) = ?ss'" "waiters (onTimeout i s) = ?ws"
      "pushes (onTimeout i s) = pushes s"
    by (simp_all add: onTimeout_def modify_def)
  show ?thesis
    unfolding inv_queue_def eq using ni(2) w' j srt by blast
qed

lemma inv_queue_waitForStreamSlot:
  assumes "inv_queue s" "i < length (sessions s)" "i \<notin> set (waiters s)"
    and "pc (sessions s ! i) = Await_slot" "slotOk (sessions s ! i) = None"
  shows "inv_queue (waitForStreamSlot i QUEUE_WAIT_MS s)"
proof (cases "activeStreams s < MAX_CONCURRENT_STREAMS")
  case True
  have "timer (sessions s ! i) = None" using assms(1,2,3) by (auto simp: inv_queue_def)
  then have "inv_queue (modify i (\<lambda>x. x\<lparr>slotOk := Some True\<rparr>) s)"
    using assms by (intro inv_queue_modify) (simp_all add: before_slot_def)
  then show ?thesis using True by (simp add: waitForStreamSlot_def)
next
  case False
  let ?ss = "sessions s"
  let ?y = "(?ss ! i)\<lparr>timer := Some QUEUE_WAIT_MS, ticket := pushes s\<rparr>"
  let ?ss' = "?ss[i := ?y]"
  let ?ws = "waiters s @ [i]"
  have d: "distinct ?ws" using assms(1,3) by (simp add: inv_queue_def)
  have bound: "\<forall>v \<in> set (waiters s). v < length ?ss"
    using assms(1) by (simp add: inv_queue_def)
  have t: "\<forall>a \<in> set (waiters s). ticket (?ss' ! a) = ticket (?ss ! a)"
    using assms(3) by (simp add: ball_nth_update [OF bound, where Q = "\<lambda>a z. ticket z = ticket (?ss ! a)"])
  have "sorted_wrt (\<lambda>a b. ticket (?ss ! a) < ticket (?ss ! b)) (waiters s)"
    using assms(1) by (simp add: inv_queue_def)
  then have s0: "sorted_wrt (\<lambda>a b. ticket (?ss' ! a) < ticket (?ss' ! b)) (waiters s)"
    using t by (rule sorted_wrt_ticket_update)
  have w0: "\<forall>v \<in> set (waiters s). waiting (?ss' ! v) \<and> ticket (?ss' ! v) < pushes s"
    using assms(1,3) by (simp add: ball_nth_update [OF bound, where Q = "\<lambda>a z. waiting z \<and> ticket z < pushes s"] inv_queue_def)
  have yi: "?ss' ! i = ?y" using assms(2) by simp
  have lt: "\<forall>a \<in> set (waiters s). ticket (?ss' ! a) < ticket (?ss' ! i)"
    using w0 yi by simp
  have srt: "sorted_wrt (\<lambda>a b. ticket (?ss' ! a) < ticket (?ss' ! b)) ?ws"
    using s0 lt by (simp add: sorted_wrt_append)
  have wy: "waiting ?y" using assms(4,5) by (simp add: waiting_def)
  have w: "\<forall>v \<in> set ?ws. v < length ?ss' \<and> waiting (?ss' ! v) \<and> ticket (?ss' ! v) < pushes s + 1"
    using w0 bound wy yi assms(2) by auto
  have j0: "\<forall>j < length ?ss. (timer (?ss ! j) \<noteq> None \<longrightarrow> j \<in> set (waiters s))
           \<and> (before_slot (handler (?ss ! j)) (pc (?ss ! j)) \<longrightarrow> slotOk (?ss ! j) = None)"
    using assms by (simp add: inv_queue_def)
  have j: "\<forall>j < length ?ss'.
             (timer (?ss' ! j) \<noteq> None \<longrightarrow> j \<in> set ?ws)
           \<and> (before_slot (handler (?ss' ! j)) (pc (?ss' ! j)) \<longrightarrow> slotOk (?ss' ! j) = None)"
  proof (intro allI impI)
    fix j assume "j < length ?ss'"
    then have jl: "j < length ?ss" by simp
    show "(timer (?ss' ! j) \<noteq> None \<longrightarrow> j \<in> set ?ws)
           \<and> (before_slot (handler (?ss' ! j)) (pc (?ss' ! j)) \<longrightarrow> slotOk (?ss' ! j) = None)"
      using j0 assms(4,5) jl by (cases "j = i") (auto simp: before_slot_def)
  qed
  have eq: "sessions (waitForStreamSlot i QUEUE_WAIT_MS s) = ?ss'"
      "waiters (waitForStreamSlot i QUEUE_WAIT_MS s) = ?ws"
      "pushes (waitForStreamSlot i QUEUE_WAIT_MS s) = pushes s + 1"
    using False by (simp_all add: waitForStreamSlot_def modify_def)
  show ?thesis
    unfolding inv_queue_def eq using d w j srt by blast
qed

lemma inv_queue_releasePage: "inv_queue (releasePage pg s) = inv_queue s"
  by (simp add: releasePage_def split: option.splits)

lemma inv_queue_cleanup:
  assumes "inv_queue s"
  shows "inv_queue (cleanup i why s)"
proof (cases "cleanup_done (sessions s ! i)")
  case True
  then show ?thesis using assms by (simp add: cleanup_def)
next
  case False
  let ?f = "\<lambda>x. x\<lparr>cleanup_done := True, cleanups := cleanups x @ [why],
                   ffmpegProcess := map_option kill (ffmpegProcess x),
                   stream := map_option (\<lambda>d. True) (stream x)\<rparr>"
  let ?s1 = "modify i ?f s"
  have s1: "inv_queue ?s1"
    using assms by (rule inv_queue_same) simp_all
  show ?thesis
  proof (cases "countedStream (sessions s ! i)")
    case True
    have "inv_queue (modify i (\<lambda>x. x\<lparr>countedStream := False, releases := releases x + 1\<rparr>)
                   (?s1\<lparr>activeStreams := (if activeStreams ?s1 > 0 then activeStreams ?s1 - 1
                                           else activeStreams ?s1)\<rparr>))"
      by (rule inv_queue_same) (simp_all add: s1)
    then have "inv_queue (notifyStreamSlot
                 (modify i (\<lambda>x. x\<lparr>countedStream := False, releases := releases x + 1\<rparr>)
                   (?s1\<lparr>activeStreams := (if activeStreams ?s1 > 0 then activeStreams ?s1 - 1
                                           else activeStreams ?s1)\<rparr>)))"
      by (rule inv_queue_notify)
    then show ?thesis
      using False True by (simp add: cleanup_def Let_def inv_queue_releasePage)
  next
    case c: False
    then show ?thesis
      using False s1 by (simp add: cleanup_def Let_def inv_queue_releasePage)
  qed
qed

lemma waiters_notify [simp]: "waiters (notifyStreamSlot s) = tl (waiters s)"
  by (simp add: notifyStreamSlot_def onSlot_def modify_def split: list.splits)

lemma waiters_modify [simp]: "waiters (modify i f s) = waiters s"
  by (simp add: modify_def)

lemma waiters_releasePage [simp]: "waiters (releasePage pg s) = waiters s"
  by (simp add: releasePage_def split: option.splits)

lemma waiters_cleanup:
  "waiters (cleanup i why s)
     = (if \<not> cleanup_done (sessions s ! i) \<and> countedStream (sessions s ! i)
        then tl (waiters s) else waiters s)"
  by (simp add: cleanup_def Let_def)

lemma length_notify [simp]: "length (sessions (notifyStreamSlot s)) = length (sessions s)"
  by (simp add: notifyStreamSlot_def onSlot_def modify_def split: list.splits)

lemma inv_queue_leave:
  assumes "inv_queue s" "i < length (sessions s)" "i \<notin> set (waiters s)"
    and "timer (f (sessions s ! i)) = timer (sessions s ! i)"
    and "before_slot (handler (f (sessions s ! i))) (pc (f (sessions s ! i)))
           \<longrightarrow> slotOk (f (sessions s ! i)) = None"
  shows "inv_queue (modify i f s)"
proof -
  have "timer (sessions s ! i) = None"
    using assms(1,2,3) by (auto simp: inv_queue_def)
  then show ?thesis
    using assms by (intro inv_queue_modify) simp_all
qed

lemma inv_queue_fail:
  assumes "inv_queue s" "i < length (sessions s)" "i \<notin> set (waiters s)"
  shows "inv_queue (fail i code body why s)"
proof -
  let ?s0 = "modify i (\<lambda>x. x\<lparr>response := Some (code, body)\<rparr>) s"
  let ?s1 = "cleanup i why ?s0"
  have "inv_queue ?s0" using assms(1) by (rule inv_queue_same) simp_all
  then have q1: "inv_queue ?s1" by (rule inv_queue_cleanup)
  have l1: "i < length (sessions ?s1)" using assms(2) by (simp add: modify_def)
  have "set (waiters ?s1) \<subseteq> set (waiters ?s0)"
    by (cases "waiters s") (auto simp: waiters_cleanup)
  then have n1: "i \<notin> set (waiters ?s1)" using assms(3) by auto
  have "inv_queue (modify i (\<lambda>x. x\<lparr>pc := Returned\<rparr>) ?s1)"
    using q1 l1 n1 by (rule inv_queue_leave) (simp_all add: before_slot_def)
  then show ?thesis by (simp add: fail_def)
qed

lemma not_waiting_not_queued:
  "inv_queue s \<Longrightarrow> pc (sessions s ! i) \<noteq> Await_slot \<or> slotOk (sessions s ! i) \<noteq> None
     \<Longrightarrow> i \<notin> set (waiters s)"
  by (auto simp: inv_queue_def waiting_def)

lemma inv_queue_resume:
  assumes "inv_queue s" "i < length (sessions s)"
    and "handler (sessions s ! i) = h" "pc (sessions s ! i) = p"
  shows "inv_queue (resume h p out i s)"
proof -
  let ?x = "sessions s ! i"
  have nq: "p \<noteq> Await_slot \<or> slotOk ?x \<noteq> None \<Longrightarrow> i \<notin> set (waiters s)"
    using not_waiting_not_queued [OF assms(1), of i] assms(4) by simp
  have bs: "before_slot h p \<longrightarrow> slotOk ?x = None"
    using assms by (auto simp: inv_queue_def)
  have F0: "\<And>code body why. p \<noteq> Await_slot \<or> slotOk ?x \<noteq> None \<Longrightarrow> inv_queue (fail i code body why s)"
    using assms(1,2) nq by (intro inv_queue_fail) simp_all
  have F1: "\<And>f. p \<noteq> Await_slot \<or> slotOk ?x \<noteq> None \<Longrightarrow> timer (f ?x) = timer ?x \<Longrightarrow>
              (before_slot (handler (f ?x)) (pc (f ?x)) \<longrightarrow> slotOk (f ?x) = None) \<Longrightarrow>
              inv_queue (modify i f s)"
    using assms(1,2) nq by (intro inv_queue_leave) simp_all
  have A: "inv_queue (acquirePage i s)"
    unfolding acquirePage_def using assms(1) by (intro inv_queue_same) simp_all
  have Ai: "i < length (sessions (acquirePage i s))" "waiters (acquirePage i s) = waiters s"
       "sessions (acquirePage i s) ! i = ?x\<lparr>page := Some (newPages s)\<rparr>"
    using assms(2) by (simp_all add: acquirePage_def modify_def)
  have F2: "\<And>f. p \<noteq> Await_slot \<Longrightarrow> timer (f (?x\<lparr>page := Some (newPages s)\<rparr>)) = timer ?x \<Longrightarrow>
              (before_slot (handler (f (?x\<lparr>page := Some (newPages s)\<rparr>))) (pc (f (?x\<lparr>page := Some (newPages s)\<rparr>)))
                 \<longrightarrow> slotOk (f (?x\<lparr>page := Some (newPages s)\<rparr>)) = None) \<Longrightarrow>
              inv_queue (modify i f (acquirePage i s))"
    using A Ai nq by (intro inv_queue_leave) simp_all
  have T: "inv_queue (take_slot i s)"
    unfolding take_slot_def using assms(1) by (intro inv_queue_same) simp_all
  have Ti: "i < length (sessions (take_slot i s))" "waiters (take_slot i s) = waiters s"
       "sessions (take_slot i s) ! i = ?x\<lparr>countedStream := True\<rparr>"
    using assms(2) by (simp_all add: take_slot_def modify_def)
  have F3: "\<And>g q. p = Await_slot \<Longrightarrow> slotOk ?x \<noteq> None \<Longrightarrow> \<not> before_slot h q \<Longrightarrow>
              inv_queue (modify i (enter g q) (take_slot i s))"
    using T Ti nq assms(3) by (intro inv_queue_leave) (simp_all add: enter_def)
  have F4: "\<And>f. p \<noteq> Await_slot \<Longrightarrow> slotOk ?x = None \<Longrightarrow> timer (f ?x) = timer ?x \<Longrightarrow>
              pc (f ?x) = Await_slot \<Longrightarrow> slotOk (f ?x) = None \<Longrightarrow>
              inv_queue (waitForStreamSlot i QUEUE_WAIT_MS (modify i f s))"
  proof -
    fix f :: "session \<Rightarrow> session"
    assume a: "p \<noteq> Await_slot" "slotOk ?x = None" "timer (f ?x) = timer ?x"
       "pc (f ?x) = Await_slot" "slotOk (f ?x) = None"
    have "inv_queue (modify i f s)"
      using a by (intro F1) (simp_all add: before_slot_def)
    moreover have "i < length (sessions (modify i f s))" "i \<notin> set (waiters (modify i f s))"
       "sessions (modify i f s) ! i = f ?x"
      using assms(2) nq a(1) by (simp_all add: modify_def)
    ultimately show "inv_queue (waitForStreamSlot i QUEUE_WAIT_MS (modify i f s))"
      using a by (intro inv_queue_waitForStreamSlot) simp_all
  qed
  show ?thesis
    using assms bs
    by (cases h; cases p; cases out)
       (simp_all add: F0 F1 F2 F3 F4 Let_def enter_def pipe_def before_slot_def
         split: option.splits bool.splits)
qed

lemma inv_queue_append:
  assumes "inv_queue s" "timer x = None" "slotOk x = None"
  shows "inv_queue (s\<lparr>sessions := sessions s @ [x]\<rparr>)"
proof -
  let ?ss = "sessions s" and ?ss' = "sessions s @ [x]"
  have bound: "\<forall>w \<in> set (waiters s). w < length ?ss"
    using assms(1) by (simp add: inv_queue_def)
  then have same: "\<forall>w \<in> set (waiters s). ?ss' ! w = ?ss ! w"
    by (simp add: nth_append)
  have "sorted_wrt (\<lambda>a b. ticket (?ss ! a) < ticket (?ss ! b)) (waiters s)"
    using assms(1) by (simp add: inv_queue_def)
  then have srt: "sorted_wrt (\<lambda>a b. ticket (?ss' ! a) < ticket (?ss' ! b)) (waiters s)"
    by (rule sorted_wrt_ticket_update) (simp add: same)
  have w: "\<forall>w \<in> set (waiters s). w < length ?ss' \<and> waiting (?ss' ! w) \<and> ticket (?ss' ! w) < pushes s"
    using assms(1) same by (auto simp: inv_queue_def)
  have j: "\<forall>j < length ?ss'.
             (timer (?ss' ! j) \<noteq> None \<longrightarrow> j \<in> set (waiters s))
           \<and> (before_slot (handler (?ss' ! j)) (pc (?ss' ! j)) \<longrightarrow> slotOk (?ss' ! j) = None)"
  proof (intro allI impI)
    fix j assume "j < length ?ss'"
    then show "(timer (?ss' ! j) \<noteq> None \<longrightarrow> j \<in> set (waiters s))
           \<and> (before_slot (handler (?ss' ! j)) (pc (?ss' ! j)) \<longrightarrow> slotOk (?ss' ! j) = None)"
      using assms by (cases "j < length ?ss") (auto simp: inv_queue_def nth_append)
  qed
  have d: "distinct (waiters s)" using assms(1) by (simp add: inv_queue_def)
  show ?thesis
    unfolding inv_queue_def using d w j srt by simp
qed

lemma inv_queue_step:
  assumes "inv_queue s"
  shows "inv_queue (step e s)"
proof (cases e)
  case (Get_stream_channel raw)
  with assms show ?thesis
    by (simp add: get_stream_channel_def Let_def inv_queue_append new_session_def)
next
  case (Get_stream u)
  with assms show ?thesis
    by (simp add: get_stream_def inv_queue_append new_session_def)
next
  case (Settle i out)
  with assms show ?thesis by (simp add: inv_queue_resume)
next
  case (Emit i t)
  with assms show ?thesis by (simp add: inv_queue_cleanup)
next
  case (Timer_fired i)
  with assms show ?thesis by (simp add: inv_queue_onTimeout)
next
  case (Ffmpeg_exit i code signal)
  with assms show ?thesis by (simp add: inv_queue_cleanup split: option.splits)
next
  case Browser_disconnected
  with assms show ?thesis by simp
qed

lemma inv_queue_run: "inv_queue s \<Longrightarrow> inv_queue (run es s)"
  by (induction es arbitrary: s) (simp_all add: inv_queue_step)

lemma inv_queue_init: "inv_queue (init fmt)"
  by (simp add: inv_queue_def init_def)

lemma inv_once_modify:
  assumes "inv_once s"
    and "page (f (sessions s ! i)) = page (sessions s ! i)"
    and "once_ok (sessions s ! i) \<Longrightarrow> once_ok (f (sessions s ! i))"
    and "cleanup_done (sessions s ! i) \<Longrightarrow> cleanup_done (f (sessions s ! i))"
  shows "inv_once (modify i f s)"
proof (cases "i < length (sessions s)")
  case False
  then show ?thesis using assms(1) by (simp add: modify_def list_update_beyond)
next
  case True
  let ?ss = "sessions s" and ?ss' = "(sessions s)[i := f (sessions s ! i)]"
  have pg: "page (?ss' ! j) = page (?ss ! j)" if "j < length ?ss" for j
    using that assms(2) by (cases "j = i") simp_all
  have dn: "cleanup_done (?ss ! j) \<longrightarrow> cleanup_done (?ss' ! j)" if "j < length ?ss" for j
    using that assms(4) by (cases "j = i") simp_all
  have a: "\<forall>j < length ?ss'. once_ok (?ss' ! j)"
  proof (intro allI impI)
    fix j assume "j < length ?ss'"
    then show "once_ok (?ss' ! j)"
      using assms(1,3) by (cases "j = i") (simp_all add: inv_once_def)
  qed
  have b: "\<forall>j < length ?ss'. \<forall>p. page (?ss' ! j) = Some p \<longrightarrow>
            p < newPages s
          \<and> (\<not> cleanup_done (?ss' ! j) \<longrightarrow> p \<notin> set (closes s))
          \<and> (\<forall>k < length ?ss'. page (?ss' ! k) = Some p \<longrightarrow> k = j)"
  proof (intro allI impI)
    fix j p assume j: "j < length ?ss'" and p: "page (?ss' ! j) = Some p"
    then have jl: "j < length ?ss" and p0: "page (?ss ! j) = Some p" using pg by simp_all
    then have old: "p < newPages s" "\<not> cleanup_done (?ss ! j) \<longrightarrow> p \<notin> set (closes s)"
        "\<forall>k < length ?ss. page (?ss ! k) = Some p \<longrightarrow> k = j"
      using assms(1) unfolding inv_once_def by blast+
    have "\<forall>k < length ?ss'. page (?ss' ! k) = Some p \<longrightarrow> k = j"
      using old(3) pg by simp
    then show "p < newPages s
          \<and> (\<not> cleanup_done (?ss' ! j) \<longrightarrow> p \<notin> set (closes s))
          \<and> (\<forall>k < length ?ss'. page (?ss' ! k) = Some p \<longrightarrow> k = j)"
      using old dn [OF jl] by blast
  qed
  have c: "distinct (closes s)" "\<forall>p \<in> set (closes s). p < newPages s"
    using assms(1) by (simp_all add: inv_once_def)
  have eq: "sessions (modify i f s) = ?ss'" "closes (modify i f s) = closes s"
      "newPages (modify i f s) = newPages s"
    by (simp_all add: modify_def)
  show ?thesis unfolding inv_once_def eq using a b c by blast
qed

lemma inv_once_others [simp]:
  "inv_once (s\<lparr>activeStreams := a\<rparr>) = inv_once s"
  "inv_once (s\<lparr>replies := rs\<rparr>) = inv_once s"
  "inv_once (s\<lparr>currentBrowser := b\<rparr>) = inv_once s"
  "inv_once (s\<lparr>waiters := ws\<rparr>) = inv_once s"
  "inv_once (s\<lparr>pushes := n\<rparr>) = inv_once s"
  "inv_once (s\<lparr>pagesInUse := ps\<rparr>) = inv_once s"
  by (simp_all add: inv_once_def)

lemma inv_once_same:
  assumes "inv_once s"
    and "page (f (sessions s ! i)) = page (sessions s ! i)"
    and "cleanup_done (f (sessions s ! i)) = cleanup_done (sessions s ! i)"
    and "cleanups (f (sessions s ! i)) = cleanups (sessions s ! i)"
    and "releases (f (sessions s ! i)) = releases (sessions s ! i)"
  shows "inv_once (modify i f s)"
  using assms by (intro inv_once_modify) (simp_all add: once_ok_def)

lemma inv_once_notify: "inv_once s \<Longrightarrow> inv_once (notifyStreamSlot s)"
  by (cases "waiters s") (simp_all add: notifyStreamSlot_def onSlot_def inv_once_same)

lemma inv_once_onTimeout: "inv_once s \<Longrightarrow> inv_once (onTimeout i s)"
  by (simp add: onTimeout_def inv_once_same)

lemma inv_once_waitForStreamSlot: "inv_once s \<Longrightarrow> inv_once (waitForStreamSlot i ms s)"
  by (simp add: waitForStreamSlot_def inv_once_same)

lemma inv_once_take_slot: "inv_once s \<Longrightarrow> inv_once (take_slot i s)"
  by (simp add: take_slot_def inv_once_same)

lemma once_ok_page [simp]: "once_ok (x\<lparr>page := p\<rparr>) = once_ok x"
  by (simp add: once_ok_def)

lemma inv_once_acquirePage:
  assumes "inv_once s" "i < length (sessions s)"
  shows "inv_once (acquirePage i s)"
proof -
  let ?ss = "sessions s"
  let ?ss' = "?ss[i := (?ss ! i)\<lparr>page := Some (newPages s)\<rparr>]"
  have old: "\<And>j p. j < length ?ss \<Longrightarrow> page (?ss ! j) = Some p \<Longrightarrow>
            p < newPages s
          \<and> (\<not> cleanup_done (?ss ! j) \<longrightarrow> p \<notin> set (closes s))
          \<and> (\<forall>k < length ?ss. page (?ss ! k) = Some p \<longrightarrow> k = j)"
    using assms(1) unfolding inv_once_def by blast
  have c: "distinct (closes s)" "\<forall>p \<in> set (closes s). p < newPages s"
    using assms(1) by (simp_all add: inv_once_def)
  have a: "\<forall>j < length ?ss'. once_ok (?ss' ! j)"
  proof (intro allI impI)
    fix j assume "j < length ?ss'"
    then show "once_ok (?ss' ! j)"
      using assms(1) by (cases "j = i") (simp_all add: inv_once_def)
  qed
  have pg: "page (?ss' ! k) = (if k = i then Some (newPages s) else page (?ss ! k))"
    if "k < length ?ss" for k
    using that by (cases "k = i") simp_all
  have dn: "cleanup_done (?ss' ! k) = cleanup_done (?ss ! k)" if "k < length ?ss" for k
    using that by (cases "k = i") simp_all
  have b: "\<forall>j < length ?ss'. \<forall>p. page (?ss' ! j) = Some p \<longrightarrow>
            p < newPages s + 1
          \<and> (\<not> cleanup_done (?ss' ! j) \<longrightarrow> p \<notin> set (closes s))
          \<and> (\<forall>k < length ?ss'. page (?ss' ! k) = Some p \<longrightarrow> k = j)"
  proof (intro allI impI)
    fix j p assume j: "j < length ?ss'" and p: "page (?ss' ! j) = Some p"
    then have jl: "j < length ?ss" by simp
    show "p < newPages s + 1
          \<and> (\<not> cleanup_done (?ss' ! j) \<longrightarrow> p \<notin> set (closes s))
          \<and> (\<forall>k < length ?ss'. page (?ss' ! k) = Some p \<longrightarrow> k = j)"
    proof (cases "j = i")
      case True
      then have pn: "p = newPages s" using p jl by simp
      have "k = j" if "k < length ?ss'" "page (?ss' ! k) = Some p" for k
      proof (rule ccontr)
        assume "k \<noteq> j"
        then have "page (?ss ! k) = Some (newPages s)" using that pg True pn by simp
        then have "newPages s < newPages s" using old [of k "newPages s"] that(1) by simp
        then show False by simp
      qed
      then show ?thesis using pn c(2) by auto
    next
      case False
      then have p0: "page (?ss ! j) = Some p" using p jl by simp
      from old [OF jl p0] have o: "p < newPages s"
          "\<not> cleanup_done (?ss ! j) \<longrightarrow> p \<notin> set (closes s)"
          "\<forall>k < length ?ss. page (?ss ! k) = Some p \<longrightarrow> k = j" by blast+
      have "k = j" if "k < length ?ss'" "page (?ss' ! k) = Some p" for k
      proof (cases "k = i")
        case True
        then show ?thesis using that pg o(1) by simp
      next
        case False
        then show ?thesis using that pg o(3) by simp
      qed
      then show ?thesis using o dn [OF jl] by auto
    qed
  qed
  have c': "\<forall>p \<in> set (closes s). p < newPages s + 1" using c(2) by auto
  have eq: "sessions (acquirePage i s) = ?ss'" "closes (acquirePage i s) = closes s"
      "newPages (acquirePage i s) = newPages s + 1"
    by (simp_all add: acquirePage_def modify_def)
  show ?thesis unfolding inv_once_def eq using a b c(1) c' by blast
qed

lemma inv_once_close:
  assumes "inv_once s" "i < length (sessions s)" "page (sessions s ! i) = Some p"
    and "cleanup_done (sessions s ! i)" "p \<notin> set (closes s)"
  shows "inv_once (releasePage (Some p) s)"
proof -
  let ?ss = "sessions s"
  have old: "\<And>j q. j < length ?ss \<Longrightarrow> page (?ss ! j) = Some q \<Longrightarrow>
            q < newPages s
          \<and> (\<not> cleanup_done (?ss ! j) \<longrightarrow> q \<notin> set (closes s))
          \<and> (\<forall>k < length ?ss. page (?ss ! k) = Some q \<longrightarrow> k = j)"
    using assms(1) unfolding inv_once_def by blast
  have a: "\<forall>j < length ?ss. once_ok (?ss ! j)" using assms(1) by (simp add: inv_once_def)
  have c: "distinct (closes s)" "\<forall>p \<in> set (closes s). p < newPages s"
    using assms(1) by (simp_all add: inv_once_def)
  have pl: "p < newPages s" using old [OF assms(2,3)] by simp
  have d': "distinct (closes s @ [p])" using c(1) assms(5) by simp
  have c': "\<forall>q \<in> set (closes s @ [p]). q < newPages s" using c(2) pl by simp
  have b: "\<forall>j < length ?ss. \<forall>q. page (?ss ! j) = Some q \<longrightarrow>
            q < newPages s
          \<and> (\<not> cleanup_done (?ss ! j) \<longrightarrow> q \<notin> set (closes s @ [p]))
          \<and> (\<forall>k < length ?ss. page (?ss ! k) = Some q \<longrightarrow> k = j)"
  proof (intro allI impI)
    fix j q assume j: "j < length ?ss" and q: "page (?ss ! j) = Some q"
    from old [OF j q] have o: "q < newPages s"
          "\<not> cleanup_done (?ss ! j) \<longrightarrow> q \<notin> set (closes s)"
          "\<forall>k < length ?ss. page (?ss ! k) = Some q \<longrightarrow> k = j" by blast+
    have "q \<noteq> p" if "\<not> cleanup_done (?ss ! j)"
    proof
      assume "q = p"
      then have "i = j" using o(3) assms(2,3) by simp
      then show False using that assms(4) by simp
    qed
    then show "q < newPages s
          \<and> (\<not> cleanup_done (?ss ! j) \<longrightarrow> q \<notin> set (closes s @ [p]))
          \<and> (\<forall>k < length ?ss. page (?ss ! k) = Some q \<longrightarrow> k = j)"
      using o by auto
  qed
  have eq: "sessions (releasePage (Some p) s) = ?ss" "closes (releasePage (Some p) s) = closes s @ [p]"
      "newPages (releasePage (Some p) s) = newPages s"
    by (simp_all add: releasePage_def)
  show ?thesis unfolding inv_once_def eq using a b d' c' by blast
qed

lemma inv_once_releasePage_None [simp]: "inv_once (releasePage None s) = inv_once s"
  by (simp add: releasePage_def)

lemma inv_once_cleanup:
  assumes "inv_once s" "i < length (sessions s)"
  shows "inv_once (cleanup i why s)"
proof (cases "cleanup_done (sessions s ! i)")
  case True
  then show ?thesis using assms by (simp add: cleanup_def)
next
  case False
  let ?x = "sessions s ! i"
  let ?f = "\<lambda>x. x\<lparr>cleanup_done := True, cleanups := cleanups x @ [why],
                   ffmpegProcess := map_option kill (ffmpegProcess x),
                   stream := map_option (\<lambda>d. True) (stream x)\<rparr>"
  let ?s1 = "modify i ?f s"
  let ?g = "\<lambda>x. x\<lparr>countedStream := False, releases := releases x + 1\<rparr>"
  let ?s2 = "if countedStream ?x
             then notifyStreamSlot (modify i ?g
                    (?s1\<lparr>activeStreams := (if activeStreams ?s1 > 0 then activeStreams ?s1 - 1
                                            else activeStreams ?s1)\<rparr>))
             else ?s1"
  have ok: "once_ok ?x" using assms by (simp add: inv_once_def)
  then have r0: "releases ?x = 0" "cleanups ?x = []"
    using False by (auto simp: once_ok_def)
  have s1: "inv_once ?s1"
    using assms(1) False r0 by (intro inv_once_modify) (simp_all add: once_ok_def)
  have x1: "sessions ?s1 ! i = ?f ?x" using assms(2) by (simp add: modify_def)
  have "inv_once (modify i ?g (?s1\<lparr>activeStreams := (if activeStreams ?s1 > 0 then activeStreams ?s1 - 1
                                            else activeStreams ?s1)\<rparr>))"
    using s1 x1 r0 by (intro inv_once_modify) (simp_all add: once_ok_def)
  then have s2: "inv_once ?s2"
    using s1 by (simp add: inv_once_notify)
  have f2: "page (sessions ?s2 ! i) = page ?x" "cleanup_done (sessions ?s2 ! i)"
      "closes ?s2 = closes s" "i < length (sessions ?s2)"
    using assms(2) by (simp_all add: nth_notify_fields notify_state_fields modify_def)
  have c: "cleanup i why s = releasePage (page ?x) ?s2"
    using False by (simp add: cleanup_def Let_def)
  show ?thesis
  proof (cases "page ?x")
    case None
    then show ?thesis using c s2 by simp
  next
    case (Some p)
    have "p \<notin> set (closes s)"
      using assms False Some unfolding inv_once_def by blast
    then have "inv_once (releasePage (Some p) ?s2)"
      using s2 f2 Some by (intro inv_once_close [where i = i]) simp_all
    then show ?thesis using c Some by simp
  qed
qed

lemma inv_once_fail:
  assumes "inv_once s" "i < length (sessions s)"
  shows "inv_once (fail i code body why s)"
proof -
  let ?s0 = "modify i (\<lambda>x. x\<lparr>response := Some (code, body)\<rparr>) s"
  have "inv_once ?s0" using assms(1) by (intro inv_once_same) simp_all
  moreover have "i < length (sessions ?s0)" using assms(2) by (simp add: modify_def)
  ultimately have "inv_once (cleanup i why ?s0)" by (rule inv_once_cleanup)
  then show ?thesis
    unfolding fail_def by (intro inv_once_same) simp_all
qed

lemma inv_once_resume:
  assumes "inv_once s" "i < length (sessions s)"
  shows "inv_once (resume h p out i s)"
proof -
  have F1: "\<And>f. page (f (sessions s ! i)) = page (sessions s ! i) \<Longrightarrow>
              cleanup_done (f (sessions s ! i)) = cleanup_done (sessions s ! i) \<Longrightarrow>
              cleanups (f (sessions s ! i)) = cleanups (sessions s ! i) \<Longrightarrow>
              releases (f (sessions s ! i)) = releases (sessions s ! i) \<Longrightarrow>
              inv_once (modify i f s)"
    using assms(1) by (intro inv_once_same) simp_all
  have A: "inv_once (acquirePage i s)" using assms by (rule inv_once_acquirePage)
  have F2: "\<And>g q. inv_once (modify i (enter g q) (acquirePage i s))"
    using A by (intro inv_once_same) (simp_all add: enter_def)
  have F3: "\<And>g q. inv_once (modify i (enter g q) (take_slot i s))"
    using inv_once_take_slot [OF assms(1)] by (intro inv_once_same) (simp_all add: enter_def)
  have F4: "\<And>f ms. inv_once (modify i f s) \<Longrightarrow> inv_once (waitForStreamSlot i ms (modify i f s))"
    by (rule inv_once_waitForStreamSlot)
  show ?thesis
    using assms
    by (cases h; cases p; cases out)
       (simp_all add: inv_once_fail F1 F2 F3 F4 Let_def enter_def pipe_def
         split: option.splits bool.splits)
qed

lemma inv_once_append:
  assumes "inv_once s" "page x = None" "once_ok x"
  shows "inv_once (s\<lparr>sessions := sessions s @ [x]\<rparr>)"
proof -
  let ?ss = "sessions s" and ?ss' = "sessions s @ [x]"
  have old: "\<And>j q. j < length ?ss \<Longrightarrow> page (?ss ! j) = Some q \<Longrightarrow>
            q < newPages s
          \<and> (\<not> cleanup_done (?ss ! j) \<longrightarrow> q \<notin> set (closes s))
          \<and> (\<forall>k < length ?ss. page (?ss ! k) = Some q \<longrightarrow> k = j)"
    using assms(1) unfolding inv_once_def by blast
  have ok: "\<And>j. j < length ?ss \<Longrightarrow> once_ok (?ss ! j)"
    using assms(1) unfolding inv_once_def by blast
  have last: "?ss' ! length ?ss = x" by simp
  have init: "\<And>k. k < length ?ss \<Longrightarrow> ?ss' ! k = ?ss ! k" by (simp add: nth_append)
  have split: "\<And>k. k < length ?ss' \<Longrightarrow> k < length ?ss \<or> k = length ?ss" by auto
  have a: "\<forall>j < length ?ss'. once_ok (?ss' ! j)"
  proof (intro allI impI)
    fix j assume "j < length ?ss'"
    then consider "j < length ?ss" | "j = length ?ss" using split by blast
    then show "once_ok (?ss' ! j)"
    proof cases
      case 1
      then show ?thesis using ok init by simp
    next
      case 2
      then show ?thesis using last assms(3) by simp
    qed
  qed
  have nopage: "\<And>k p. k < length ?ss' \<Longrightarrow> page (?ss' ! k) = Some p \<Longrightarrow> k < length ?ss"
  proof -
    fix k p assume k: "k < length ?ss'" "page (?ss' ! k) = Some p"
    show "k < length ?ss"
    proof (rule ccontr)
      assume "\<not> k < length ?ss"
      then have "k = length ?ss" using split [OF k(1)] by simp
      then show False using k(2) last assms(2) by simp
    qed
  qed
  have b: "\<forall>j < length ?ss'. \<forall>p. page (?ss' ! j) = Some p \<longrightarrow>
            p < newPages s
          \<and> (\<not> cleanup_done (?ss' ! j) \<longrightarrow> p \<notin> set (closes s))
          \<and> (\<forall>k < length ?ss'. page (?ss' ! k) = Some p \<longrightarrow> k = j)"
  proof (intro allI impI)
    fix j p assume j: "j < length ?ss'" and p: "page (?ss' ! j) = Some p"
    have jl: "j < length ?ss" using nopage [OF j p] .
    then have p0: "page (?ss ! j) = Some p" using p init by simp
    from old [OF jl p0] have o: "p < newPages s"
          "\<not> cleanup_done (?ss ! j) \<longrightarrow> p \<notin> set (closes s)"
          "\<forall>k < length ?ss. page (?ss ! k) = Some p \<longrightarrow> k = j" by blast+
    have u: "\<forall>k < length ?ss'. page (?ss' ! k) = Some p \<longrightarrow> k = j"
    proof (intro allI impI)
      fix k assume k: "k < length ?ss'" "page (?ss' ! k) = Some p"
      have kl: "k < length ?ss" using nopage [OF k] .
      then have "page (?ss ! k) = Some p" using k(2) init by simp
      then show "k = j" using o(3) kl by blast
    qed
    have "\<not> cleanup_done (?ss' ! j) \<longrightarrow> p \<notin> set (closes s)"
      using o(2) init [OF jl] by simp
    then show "p < newPages s
          \<and> (\<not> cleanup_done (?ss' ! j) \<longrightarrow> p \<notin> set (closes s))
          \<and> (\<forall>k < length ?ss'. page (?ss' ! k) = Some p \<longrightarrow> k = j)"
      using o(1) u by blast
  qed
  have c: "distinct (closes s)" "\<forall>p \<in> set (closes s). p < newPages s"
    using assms(1) by (simp_all add: inv_once_def)
  have eq: "sessions (s\<lparr>sessions := ?ss'\<rparr>) = ?ss'" "closes (s\<lparr>sessions := ?ss'\<rparr>) = closes s"
      "newPages (s\<lparr>sessions := ?ss'\<rparr>) = newPages s"
    by simp_all
  show ?thesis unfolding inv_once_def eq using a b c by blast
qed

lemma inv_once_step:
  assumes "inv_once s"
  shows "inv_once (step e s)"
proof (cases e)
  case (Get_stream_channel raw)
  with assms show ?thesis
    by (simp add: get_stream_channel_def Let_def inv_once_append new_session_def once_ok_def)
next
  case (Get_stream u)
  with assms show ?thesis
    by (simp add: get_stream_def inv_once_append new_session_def once_ok_def)
next
  case (Settle i out)
  with assms show ?thesis by (simp add: inv_once_resume)
next
  case (Emit i t)
  with assms show ?thesis by (simp add: inv_once_cleanup)
next
  case (Timer_fired i)
  with assms show ?thesis by (simp add: inv_once_onTimeout)
next
  case (Ffmpeg_exit i code signal)
  with assms show ?thesis by (simp add: inv_once_cleanup split: option.splits)
next
  case Browser_disconnected
  with assms show ?thesis by simp
qed

lemma inv_once_run: "inv_once s \<Longrightarrow> inv_once (run es s)"
  by (induction es arbitrary: s) (simp_all add: inv_once_step)

lemma inv_once_init: "inv_once (init fmt)"
  by (simp add: inv_once_def init_def)

lemma wake_fields [simp]:
  "handler (wake x) = handler x" "pc (wake x) = pc x" "stages (wake x) = stages x"
  "page (wake x) = page x" "timer (wake x) = None" "ticket (wake x) = ticket x"
  "cleanup_done (wake x) = cleanup_done x" "countedStream (wake x) = countedStream x"
  "cleanups (wake x) = cleanups x" "releases (wake x) = releases x"
  "ffmpegProcess (wake x) = ffmpegProcess x" "stream (wake x) = stream x"
  "response (wake x) = response x"
  "slotOk (wake x) = (case slotOk x of None \<Rightarrow> Some True | Some v \<Rightarrow> Some v)"
  by (simp_all add: wake_def)

lemma expire_fields [simp]:
  "handler (expire x) = handler x" "pc (expire x) = pc x" "stages (expire x) = stages x"
  "page (expire x) = page x" "timer (expire x) = None" "ticket (expire x) = ticket x"
  "cleanup_done (expire x) = cleanup_done x" "countedStream (expire x) = countedStream x"
  "cleanups (expire x) = cleanups x" "releases (expire x) = releases x"
  "ffmpegProcess (expire x) = ffmpegProcess x" "stream (expire x) = stream x"
  "response (expire x) = response x"
  "slotOk (expire x) = (case slotOk x of None \<Rightarrow> Some False | Some v \<Rightarrow> Some v)"
  by (simp_all add: expire_def)

lemma cleaned_fields [simp]:
  "handler (cleaned why x) = handler x" "pc (cleaned why x) = pc x"
  "stages (cleaned why x) = stages x" "page (cleaned why x) = page x"
  "timer (cleaned why x) = timer x" "ticket (cleaned why x) = ticket x"
  "slotOk (cleaned why x) = slotOk x" "response (cleaned why x) = response x"
  "cleanup_done (cleaned why x)" "countedStream (cleaned why x) = False"
  "cleanups (cleaned why x) = cleanups x @ [why]"
  "releases (cleaned why x) = releases x + (if countedStream x then 1 else 0)"
  "ffmpegProcess (cleaned why x) = map_option kill (ffmpegProcess x)"
  "stream (cleaned why x) = map_option (\<lambda>d. True) (stream x)"
  by (simp_all add: cleaned_def)

text \<open>The session at index \<open>j\<close> after each operation, for \<open>j\<close> an index of the list.\<close>

lemma nth_modify:
  "j < length (sessions s) \<Longrightarrow>
     sessions (modify i f s) ! j = (if j = i then f (sessions s ! i) else sessions s ! j)"
  by (simp add: modify_def)

lemma length_modify [simp]: "length (sessions (modify i f s)) = length (sessions s)"
  by (simp add: modify_def)

lemma nth_notify:
  "j < length (sessions s) \<Longrightarrow>
     sessions (notifyStreamSlot s) ! j
       = (if waiters s \<noteq> [] \<and> hd (waiters s) = j then wake (sessions s ! j) else sessions s ! j)"
  by (cases "waiters s") (auto simp: notifyStreamSlot_def onSlot_def modify_def wake_def)

lemma nth_onTimeout:
  "j < length (sessions s) \<Longrightarrow>
     sessions (onTimeout i s) ! j = (if j = i then expire (sessions s ! i) else sessions s ! j)"
  by (simp add: onTimeout_def modify_def expire_def)

lemma nth_cleanup:
  assumes "j < length (sessions s)" "i < length (sessions s)"
  shows "sessions (cleanup i why s) ! j
       = (if cleanup_done (sessions s ! i) then sessions s ! j
          else if countedStream (sessions s ! i) \<and> waiters s \<noteq> [] \<and> hd (waiters s) = j
               then wake (if j = i then cleaned why (sessions s ! i) else sessions s ! j)
               else (if j = i then cleaned why (sessions s ! i) else sessions s ! j))"
proof (cases "cleanup_done (sessions s ! i)")
  case True
  then show ?thesis by (simp add: cleanup_def)
next
  case False
  have r: "sessions (releasePage pg t) = sessions t" for pg t
    by (simp add: releasePage_def split: option.splits)
  show ?thesis
    using False assms
    by (auto simp: cleanup_def Let_def r nth_notify nth_modify modify_def cleaned_def)
qed

lemma state_cleanup:
  assumes "i < length (sessions s)"
  shows "waiters (cleanup i why s)
           = (if \<not> cleanup_done (sessions s ! i) \<and> countedStream (sessions s ! i)
              then tl (waiters s) else waiters s)"
    and "pushes (cleanup i why s) = pushes s"
    and "length (sessions (cleanup i why s)) = length (sessions s)"
    and "newPages (cleanup i why s) = newPages s"
    and "replies (cleanup i why s) = replies s"
    and "outputFormat (cleanup i why s) = outputFormat s"
    and "currentBrowser (cleanup i why s) = currentBrowser s"
    and "closes (cleanup i why s)
           = closes s @ (if cleanup_done (sessions s ! i) then []
                         else case page (sessions s ! i) of None \<Rightarrow> [] | Some p \<Rightarrow> [p])"
    and "pagesInUse (cleanup i why s)
           = (if cleanup_done (sessions s ! i) then pagesInUse s
              else case page (sessions s ! i) of None \<Rightarrow> pagesInUse s
                   | Some p \<Rightarrow> pagesInUse s - {p})"
    and "activeStreams (cleanup i why s)
           = (if \<not> cleanup_done (sessions s ! i) \<and> countedStream (sessions s ! i)
                 \<and> 0 < activeStreams s
              then activeStreams s - 1 else activeStreams s)"
  by (simp_all add: cleanup_def Let_def releasePage_def modify_def notifyStreamSlot_def onSlot_def
        split: option.splits list.splits)

lemma nth_fail:
  assumes "j < length (sessions s)" "i < length (sessions s)"
  shows "sessions (fail i code body why s) ! j
       = (if j = i
          then (if cleanup_done (sessions s ! i) then (sessions s ! i)\<lparr>response := Some (code, body)\<rparr>
                else if countedStream (sessions s ! i) \<and> waiters s \<noteq> [] \<and> hd (waiters s) = i
                     then wake (cleaned why ((sessions s ! i)\<lparr>response := Some (code, body)\<rparr>))
                     else cleaned why ((sessions s ! i)\<lparr>response := Some (code, body)\<rparr>))
               \<lparr>pc := Returned\<rparr>
          else if \<not> cleanup_done (sessions s ! i) \<and> countedStream (sessions s ! i)
                  \<and> waiters s \<noteq> [] \<and> hd (waiters s) = j
               then wake (sessions s ! j) else sessions s ! j)"
proof -
  let ?s0 = "modify i (\<lambda>x. x\<lparr>response := Some (code, body)\<rparr>) s"
  let ?s1 = "cleanup i why ?s0"
  have l0: "length (sessions ?s0) = length (sessions s)" by simp
  have w0: "waiters ?s0 = waiters s" by (simp add: modify_def)
  have x0: "sessions ?s0 ! k = (if k = i then (sessions s ! i)\<lparr>response := Some (code, body)\<rparr>
                                else sessions s ! k)" if "k < length (sessions s)" for k
    using that by (simp add: nth_modify)
  have l1: "length (sessions ?s1) = length (sessions s)"
    using state_cleanup(3) [of i ?s0 why] assms(2) by simp
  have c: "sessions ?s1 ! k
       = (if cleanup_done (sessions ?s0 ! i) then sessions ?s0 ! k
          else if countedStream (sessions ?s0 ! i) \<and> waiters ?s0 \<noteq> [] \<and> hd (waiters ?s0) = k
               then wake (if k = i then cleaned why (sessions ?s0 ! i) else sessions ?s0 ! k)
               else (if k = i then cleaned why (sessions ?s0 ! i) else sessions ?s0 ! k))"
    if "k < length (sessions s)" for k
    using nth_cleanup [of k ?s0 i why] assms l0 that by simp
  have f: "sessions (fail i code body why s) ! j
             = (if j = i then (sessions ?s1 ! i)\<lparr>pc := Returned\<rparr> else sessions ?s1 ! j)"
    using assms l1 by (simp add: fail_def nth_modify)
  show ?thesis
    unfolding f using assms by (simp add: c w0 x0)
qed

lemma state_fail:
  assumes "i < length (sessions s)"
  shows "waiters (fail i code body why s)
           = (if \<not> cleanup_done (sessions s ! i) \<and> countedStream (sessions s ! i)
              then tl (waiters s) else waiters s)"
    and "pushes (fail i code body why s) = pushes s"
    and "length (sessions (fail i code body why s)) = length (sessions s)"
    and "closes (fail i code body why s)
           = closes s @ (if cleanup_done (sessions s ! i) then []
                         else case page (sessions s ! i) of None \<Rightarrow> [] | Some p \<Rightarrow> [p])"
  using assms by (simp_all add: fail_def state_cleanup modify_def)

lemma nth_waitForStreamSlot:
  "j < length (sessions s) \<Longrightarrow>
     sessions (waitForStreamSlot i ms s) ! j
       = (if j = i
          then (if activeStreams s < MAX_CONCURRENT_STREAMS
                then (sessions s ! i)\<lparr>slotOk := Some True\<rparr>
                else (sessions s ! i)\<lparr>timer := Some ms, ticket := pushes s\<rparr>)
          else sessions s ! j)"
  by (simp add: waitForStreamSlot_def modify_def)

lemma state_waitForStreamSlot:
  "waiters (waitForStreamSlot i ms s)
     = (if activeStreams s < MAX_CONCURRENT_STREAMS then waiters s else waiters s @ [i])"
  "length (sessions (waitForStreamSlot i ms s)) = length (sessions s)"
  "closes (waitForStreamSlot i ms s) = closes s"
  by (simp_all add: waitForStreamSlot_def modify_def)

lemma nth_acquirePage:
  "j < length (sessions s) \<Longrightarrow>
     sessions (acquirePage i s) ! j
       = (if j = i then (sessions s ! i)\<lparr>page := Some (newPages s)\<rparr> else sessions s ! j)"
  by (simp add: acquirePage_def modify_def)

lemma state_acquirePage:
  "waiters (acquirePage i s) = waiters s"
  "length (sessions (acquirePage i s)) = length (sessions s)"
  "closes (acquirePage i s) = closes s"
  by (simp_all add: acquirePage_def modify_def)

lemma nth_take_slot:
  "j < length (sessions s) \<Longrightarrow>
     sessions (take_slot i s) ! j
       = (if j = i then (sessions s ! i)\<lparr>countedStream := True\<rparr> else sessions s ! j)"
  by (simp add: take_slot_def modify_def)

lemma state_take_slot:
  "waiters (take_slot i s) = waiters s"
  "length (sessions (take_slot i s)) = length (sessions s)"
  "closes (take_slot i s) = closes s"
  by (simp_all add: take_slot_def modify_def)

lemma nth_pipe:
  "j < length (sessions s) \<Longrightarrow>
     sessions (pipe i s) ! j
       = (if j = i
          then enter Piping Returned
                 (if outputFormat s = Mpegts
                  then (sessions s ! i)\<lparr>response := Some (200, ''video/mp2t''),
                          ffmpegProcess := Some spawnMpegTsTranscoder\<rparr>
                  else (sessions s ! i)\<lparr>response := Some (200, ''video/webm;codecs=H264'')\<rparr>)
          else sessions s ! j)"
  by (simp add: pipe_def modify_def)

lemma state_pipe:
  "waiters (pipe i s) = waiters s"
  "length (sessions (pipe i s)) = length (sessions s)"
  "closes (pipe i s) = closes s"
  by (simp_all add: pipe_def modify_def)

lemmas nth_ops =
  nth_modify nth_notify nth_onTimeout nth_cleanup nth_fail nth_waitForStreamSlot nth_acquirePage
  nth_take_slot nth_pipe

lemmas state_ops =
  state_cleanup state_fail state_waitForStreamSlot state_acquirePage state_take_slot state_pipe

lemmas length_ops [simp] =
  state_fail(3) state_waitForStreamSlot(2) state_acquirePage(2) state_take_slot(2) state_pipe(2)

lemma length_onTimeout [simp]: "length (sessions (onTimeout i s)) = length (sessions s)"
  by (simp add: onTimeout_def)

lemma length_resume [simp]:
  "i < length (sessions s) \<Longrightarrow> length (sessions (resume h p out i s)) = length (sessions s)"
  by (cases h; cases p; cases out) (simp_all add: Let_def split: option.splits bool.splits)

lemma length_step: "length (sessions s) \<le> length (sessions (step e s))"
  by (cases e) (simp_all add: get_stream_channel_def get_stream_def Let_def split: option.splits)

lemma length_run: "length (sessions s) \<le> length (sessions (run es s))"
proof (induction es arbitrary: s)
  case Nil
  then show ?case by simp
next
  case (Cons e es)
  then show ?case using length_step [of s e] le_trans by fastforce
qed

lemma done_part_simps [simp]:
  "done_part (wake x) = done_part x" "done_part (expire x) = done_part x"
  "done_part (enter g q x) = done_part x"
  "done_part (x\<lparr>response := r\<rparr>) = done_part x" "done_part (x\<lparr>pc := q\<rparr>) = done_part x"
  "done_part (x\<lparr>page := pg\<rparr>) = done_part x" "done_part (x\<lparr>stream := st\<rparr>) = done_part x"
  "done_part (x\<lparr>mouse := m\<rparr>) = done_part x" "done_part (x\<lparr>slotOk := so\<rparr>) = done_part x"
  "done_part (x\<lparr>timer := tm\<rparr>) = done_part x" "done_part (x\<lparr>ticket := tk\<rparr>) = done_part x"
  "done_part (x\<lparr>countedStream := c\<rparr>) = done_part x"
  "done_part (x\<lparr>ffmpegProcess := fp\<rparr>) = done_part x"
  by (simp_all add: done_part_def enter_def)

lemma done_part_cleanup:
  assumes "j < length (sessions s)" "i < length (sessions s)" "cleanup_done (sessions s ! j)"
  shows "done_part (sessions (cleanup i why s) ! j) = done_part (sessions s ! j)"
  using assms by (auto simp: nth_cleanup)

lemma done_part_fail:
  assumes "j < length (sessions s)" "i < length (sessions s)" "cleanup_done (sessions s ! j)"
  shows "done_part (sessions (fail i code body why s) ! j) = done_part (sessions s ! j)"
  using assms by (auto simp: nth_fail)

lemma done_part_resume:
  assumes "j < length (sessions s)" "i < length (sessions s)" "cleanup_done (sessions s ! j)"
  shows "done_part (sessions (resume h p out i s) ! j) = done_part (sessions s ! j)"
  using assms
  by (cases h; cases p; cases out)
     (auto simp: done_part_fail nth_modify nth_waitForStreamSlot nth_acquirePage nth_take_slot
        nth_pipe Let_def split: option.splits bool.splits)

lemma done_part_step:
  assumes "j < length (sessions s)" "cleanup_done (sessions s ! j)"
  shows "done_part (sessions (step e s) ! j) = done_part (sessions s ! j)"
proof (cases e)
  case (Get_stream_channel raw)
  with assms show ?thesis by (simp add: get_stream_channel_def Let_def nth_append)
next
  case (Get_stream u)
  with assms show ?thesis by (simp add: get_stream_def nth_append)
next
  case (Settle i out)
  with assms show ?thesis by (simp add: done_part_resume)
next
  case (Emit i t)
  with assms show ?thesis by (simp add: done_part_cleanup)
next
  case (Timer_fired i)
  with assms show ?thesis by (simp add: nth_onTimeout)
next
  case (Ffmpeg_exit i code signal)
  with assms show ?thesis by (simp add: done_part_cleanup split: option.splits)
next
  case Browser_disconnected
  then show ?thesis by simp
qed

lemma done_part_run:
  assumes "j < length (sessions s)" "cleanup_done (sessions s ! j)"
  shows "done_part (sessions (run es s) ! j) = done_part (sessions s ! j)"
  using assms
proof (induction es arbitrary: s)
  case Nil
  then show ?case by simp
next
  case (Cons e es)
  have l: "j < length (sessions (step e s))"
    using Cons.prems(1) length_step [of s e] by simp
  have d: "done_part (sessions (step e s) ! j) = done_part (sessions s ! j)"
    using Cons.prems by (rule done_part_step)
  then have "cleanup_done (sessions (step e s) ! j)"
    using Cons.prems(2) by (simp add: done_part_def)
  from Cons.IH [OF l this] d show ?case by simp
qed

text \<open>The record of \<open>page.close()\<close> calls only grows.\<close>

lemma closes_resume:
  "i < length (sessions s) \<Longrightarrow> prefix (closes s) (closes (resume h p out i s))"
  by (cases h; cases p; cases out)
     (simp_all add: state_ops modify_def Let_def split: option.splits bool.splits)

lemma closes_step: "prefix (closes s) (closes (step e s))"
  by (cases e)
     (simp_all add: closes_resume state_cleanup get_stream_channel_def get_stream_def Let_def
        onTimeout_def modify_def split: option.splits)

lemma closes_run: "prefix (closes s) (closes (run es s))"
proof (induction es arbitrary: s)
  case Nil
  then show ?case by simp
next
  case (Cons e es)
  then show ?case using closes_step [of s e] prefix_order.trans by fastforce
qed

lemma reachable_invs:
  "inv_once (run es (init fmt))" "inv_count (run es (init fmt))" "inv_queue (run es (init fmt))"
  by (simp_all add: inv_once_run inv_once_init inv_count_run inv_count_init inv_queue_run
        inv_queue_init)

lemma head_waiter_woken:
  assumes q: "inv_queue s" and c: "inv_count s" and i: "i < length (sessions s)"
    and n: "\<not> cleanup_done (sessions s ! i)" and h: "countedStream (sessions s ! i)"
    and w: "waiters s = w # rest"
  shows "slotOk (sessions (cleanup i why s) ! w) = Some True"
    and "timer (sessions (cleanup i why s) ! w) = None"
    and "w \<noteq> i"
proof -
  have ws: "w < length (sessions s)" "waiting (sessions s ! w)"
    using q w by (simp_all add: inv_queue_def)
  have "counted_ok (sessions s ! i)"
    using c i by (simp add: inv_count_def list_all_length)
  then have "pc (sessions s ! i) \<noteq> Await_slot"
    using h by (auto simp: counted_ok_def)
  then show d: "w \<noteq> i" using ws(2) by (auto simp: waiting_def)
  have "sessions (cleanup i why s) ! w = wake (sessions s ! w)"
    using nth_cleanup [OF ws(1) i, of why] n h w d by simp
  then show "slotOk (sessions (cleanup i why s) ! w) = Some True"
    and "timer (sessions (cleanup i why s) ! w) = None"
    using ws(2) by (simp_all add: waiting_def)
qed

text \<open>
  What the guard \<open>cleanup._done\<close> achieves. In every state the server can reach, and for
  every stream session of it: the cleanup body has run at most once (it has printed one reason
  if \<open>cleanup._done\<close> is set and none otherwise), the session has released a slot at most
  once, and no page has been closed twice. While \<open>cleanup._done\<close> is unset the page of the
  session has not been closed, and a call of \<open>cleanup\<close> runs the body: it closes that page,
  once, and if the session holds a slot (\<open>cleanup._countedStream\<close>) it lowers
  \<open>activeStreams\<close> by exactly one, takes the earliest waiter off the queue and resolves its
  promise to \<open>true\<close>; if it holds none, the counter and the queue stay as they are. Once
  \<open>cleanup._done\<close> is set, a call of \<open>cleanup\<close> from any source changes nothing at all, and
  whatever happens later, the session never runs the body or releases a slot again.
\<close>

lemma cleanup_body_once:
  assumes "s = run es (init fmt)" and "i < length (sessions s)" and "x = sessions s ! i"
  shows "length (cleanups x) = (if cleanup_done x then 1 else 0)
       \<and> releases x \<le> length (cleanups x)
       \<and> distinct (closes s)
       \<and> (\<not> cleanup_done x \<longrightarrow>
            (\<forall>p. page x = Some p \<longrightarrow> p \<notin> set (closes s))
          \<and> cleanup_done (sessions (cleanup i why s) ! i)
          \<and> cleanups (sessions (cleanup i why s) ! i) = [why]
          \<and> closes (cleanup i why s) = closes s @ (case page x of None \<Rightarrow> [] | Some p \<Rightarrow> [p])
          \<and> (countedStream x \<longrightarrow>
                activeStreams (cleanup i why s) = activeStreams s - 1
              \<and> releases (sessions (cleanup i why s) ! i) = 1
              \<and> \<not> countedStream (sessions (cleanup i why s) ! i)
              \<and> waiters (cleanup i why s) = tl (waiters s)
              \<and> (\<forall>w rest. waiters s = w # rest \<longrightarrow>
                    w \<noteq> i \<and> slotOk (sessions (cleanup i why s) ! w) = Some True))
          \<and> (\<not> countedStream x \<longrightarrow>
                activeStreams (cleanup i why s) = activeStreams s
              \<and> releases (sessions (cleanup i why s) ! i) = 0
              \<and> waiters (cleanup i why s) = waiters s
              \<and> (\<forall>j < length (sessions s). j \<noteq> i \<longrightarrow>
                    sessions (cleanup i why s) ! j = sessions s ! j)))
       \<and> (cleanup_done x \<longrightarrow>
            cleanup i why s = s
          \<and> step (Emit i t) s = s
          \<and> step (Ffmpeg_exit i code signal) s = s
          \<and> fail i status body why s = modify i (\<lambda>y. y\<lparr>response := Some (status, body), pc := Returned\<rparr>) s
          \<and> cleanup_done (sessions (run es' s) ! i)
          \<and> cleanups (sessions (run es' s) ! i) = cleanups x
          \<and> releases (sessions (run es' s) ! i) = releases x)"
proof -
  note inv = reachable_invs [of es fmt, folded assms(1)]
  have ok: "once_ok x"
    using inv(1) assms(2,3) by (simp add: inv_once_def)
  then have a: "length (cleanups x) = (if cleanup_done x then 1 else 0)"
    and b: "releases x \<le> length (cleanups x)"
    by (simp_all add: once_ok_def)
  have c: "distinct (closes s)"
    using inv(1) by (simp add: inv_once_def)
  have d: "?thesis" if n: "\<not> cleanup_done x"
  proof -
    have n': "\<not> cleanup_done (sessions s ! i)" using n assms(3) by simp
    note B = cleanup_body [OF assms(2) n', of why]
    have r0: "releases x = 0" "cleanups x = []" using a b n by simp_all
    have d1: "\<forall>p. page x = Some p \<longrightarrow> p \<notin> set (closes s)"
      using inv(1) assms(2,3) n unfolding inv_once_def by blast
    have d2: "cleanups (sessions (cleanup i why s) ! i) = [why]"
      using B(2) r0 assms(3) by simp
    have d3: "closes (cleanup i why s) = closes s @ (case page x of None \<Rightarrow> [] | Some p \<Rightarrow> [p])"
      using B(8) assms(3) by simp
    have d4: "activeStreams (cleanup i why s) = activeStreams s - 1
              \<and> releases (sessions (cleanup i why s) ! i) = 1
              \<and> \<not> countedStream (sessions (cleanup i why s) ! i)
              \<and> waiters (cleanup i why s) = tl (waiters s)
              \<and> (\<forall>w rest. waiters s = w # rest \<longrightarrow>
                    w \<noteq> i \<and> slotOk (sessions (cleanup i why s) ! w) = Some True)"
      if h: "countedStream x"
    proof -
      have h': "countedStream (sessions s ! i)" using h assms(3) by simp
      have "0 < activeStreams s"
        using counted_positive [OF inv(2) assms(2) h'] .
      then have "activeStreams (cleanup i why s) = activeStreams s - 1"
        using B(9) h' by simp
      moreover have "releases (sessions (cleanup i why s) ! i) = 1"
        using B(6) h' r0 assms(3) by simp
      moreover have "\<not> countedStream (sessions (cleanup i why s) ! i)"
        using B(5) by simp
      moreover have "waiters (cleanup i why s) = tl (waiters s)"
        using B(10) h' by simp
      moreover have "\<forall>w rest. waiters s = w # rest \<longrightarrow>
                    w \<noteq> i \<and> slotOk (sessions (cleanup i why s) ! w) = Some True"
        using head_waiter_woken [OF inv(3) inv(2) assms(2) n' h'] by blast
      ultimately show ?thesis by blast
    qed
    have d5: "activeStreams (cleanup i why s) = activeStreams s
              \<and> releases (sessions (cleanup i why s) ! i) = 0
              \<and> waiters (cleanup i why s) = waiters s
              \<and> (\<forall>j < length (sessions s). j \<noteq> i \<longrightarrow>
                    sessions (cleanup i why s) ! j = sessions s ! j)"
      if h: "\<not> countedStream x"
    proof -
      have h': "\<not> countedStream (sessions s ! i)" using h assms(3) by simp
      have "\<forall>j < length (sessions s). j \<noteq> i \<longrightarrow>
                    sessions (cleanup i why s) ! j = sessions s ! j"
        using nth_cleanup [OF _ assms(2), of _ why] h' by simp
      then show ?thesis using B(6,9,10) h' r0 assms(3) by simp
    qed
    from a b c n d1 B(1) d2 d3 d4 d5 show ?thesis by blast
  qed
  have e: "?thesis" if y: "cleanup_done x"
  proof -
    have y': "cleanup_done (sessions s ! i)" using y assms(3) by simp
    have e1: "cleanup i why' s = s" for why'
      using y' by (rule cleanup_again)
    have e2: "step (Emit i t) s = s" by (simp add: e1)
    have e3: "step (Ffmpeg_exit i code signal) s = s"
      by (simp add: e1 split: option.splits)
    have e4: "fail i status body why s
                = modify i (\<lambda>y. y\<lparr>response := Some (status, body), pc := Returned\<rparr>) s"
      using y' assms(2) by (simp add: fail_def cleanup_def modify_def)
    have "done_part (sessions (run es' s) ! i) = done_part (sessions s ! i)"
      using assms(2) y' by (rule done_part_run)
    then have e5: "cleanup_done (sessions (run es' s) ! i)
          \<and> cleanups (sessions (run es' s) ! i) = cleanups x
          \<and> releases (sessions (run es' s) ! i) = releases x"
      using assms(3) y' by (simp add: done_part_def)
    from a b c y e1 e2 e3 e4 e5 show ?thesis by blast
  qed
  from d e show ?thesis by blast
qed

lemma run_append: "run (es @ es') s = run es' (run es s)"
  by (induction es arbitrary: s) simp_all

text \<open>The promise of \<open>waitForStreamSlot\<close> keeps the value it was settled with.\<close>

lemma slotOk_cleanup:
  assumes "j < length (sessions s)" "i < length (sessions s)" "slotOk (sessions s ! j) = Some b"
  shows "slotOk (sessions (cleanup i why s) ! j) = Some b"
  using assms by (auto simp: nth_cleanup)

lemma slotOk_fail:
  assumes "j < length (sessions s)" "i < length (sessions s)" "slotOk (sessions s ! j) = Some b"
  shows "slotOk (sessions (fail i code body why s) ! j) = Some b"
  using assms by (auto simp: nth_fail)

lemma slotOk_resume:
  assumes q: "inv_queue s" and j: "j < length (sessions s)" and i: "i < length (sessions s)"
    and b: "slotOk (sessions s ! j) = Some b"
    and h: "h = handler (sessions s ! i)" and p: "p = pc (sessions s ! i)"
  shows "slotOk (sessions (resume h p out i s) ! j) = Some b"
proof -
  have nb: "j = i \<longrightarrow> \<not> before_slot h p"
    using q j b h p unfolding inv_queue_def by auto
  show ?thesis
    using j i b nb
    by (cases h; cases p; cases out)
       (auto simp: slotOk_fail nth_modify nth_waitForStreamSlot nth_acquirePage nth_take_slot
          nth_pipe enter_def before_slot_def Let_def split: option.splits bool.splits)
qed

lemma slotOk_step:
  assumes q: "inv_queue s" and j: "j < length (sessions s)"
    and b: "slotOk (sessions s ! j) = Some b"
  shows "slotOk (sessions (step e s) ! j) = Some b"
proof (cases e)
  case (Get_stream_channel raw)
  with j b show ?thesis by (simp add: get_stream_channel_def Let_def nth_append)
next
  case (Get_stream u)
  with j b show ?thesis by (simp add: get_stream_def nth_append)
next
  case (Settle i out)
  with q j b show ?thesis by (simp add: slotOk_resume)
next
  case (Emit i t)
  with j b show ?thesis by (simp add: slotOk_cleanup)
next
  case (Timer_fired i)
  with j b show ?thesis by (auto simp: nth_onTimeout)
next
  case (Ffmpeg_exit i code signal)
  with j b show ?thesis by (simp add: slotOk_cleanup split: option.splits)
next
  case Browser_disconnected
  with b show ?thesis by simp
qed

lemma slotOk_run:
  assumes "inv_queue s" "j < length (sessions s)" "slotOk (sessions s ! j) = Some b"
  shows "slotOk (sessions (run es s) ! j) = Some b"
  using assms
proof (induction es arbitrary: s)
  case Nil
  then show ?case by simp
next
  case (Cons e es)
  have "inv_queue (step e s)" using Cons.prems(1) by (rule inv_queue_step)
  moreover have "j < length (sessions (step e s))"
    using Cons.prems(2) length_step [of s e] by simp
  moreover have "slotOk (sessions (step e s) ! j) = Some b"
    using Cons.prems by (rule slotOk_step)
  ultimately show ?case using Cons.IH by simp
qed

lemma settled_not_queued:
  "inv_queue s \<Longrightarrow> slotOk (sessions s ! j) = Some b \<Longrightarrow> j \<notin> set (waiters s)"
  unfolding inv_queue_def waiting_def by auto

lemma fifo_release:
  assumes q: "inv_queue s" and w: "waiters s = w # rest"
  shows "waiters (notifyStreamSlot s) = rest"
    and "slotOk (sessions (notifyStreamSlot s) ! w) = Some True"
    and "timer (sessions (notifyStreamSlot s) ! w) = None"
    and "\<forall>j < length (sessions s). j \<noteq> w \<longrightarrow>
           sessions (notifyStreamSlot s) ! j = sessions s ! j"
    and "\<forall>j < length (sessions s). j \<noteq> w \<and> timer (sessions s ! j) \<noteq> None \<longrightarrow>
           j \<in> set rest \<and> ticket (sessions s ! w) < ticket (sessions s ! j)
           \<and> slotOk (sessions s ! j) = None"
proof -
  have ws: "w < length (sessions s)" "waiting (sessions s ! w)"
    using q w by (simp_all add: inv_queue_def)
  show "waiters (notifyStreamSlot s) = rest" using w by simp
  have "sessions (notifyStreamSlot s) ! w = wake (sessions s ! w)"
    using nth_notify [OF ws(1)] w by simp
  then show "slotOk (sessions (notifyStreamSlot s) ! w) = Some True"
    and "timer (sessions (notifyStreamSlot s) ! w) = None"
    using ws(2) by (simp_all add: waiting_def)
  show "\<forall>j < length (sessions s). j \<noteq> w \<longrightarrow>
           sessions (notifyStreamSlot s) ! j = sessions s ! j"
    using w by (simp add: nth_notify)
  have srt: "\<forall>v \<in> set rest. ticket (sessions s ! w) < ticket (sessions s ! v)"
    using q w by (simp add: inv_queue_def)
  have wt: "\<forall>v \<in> set rest. slotOk (sessions s ! v) = None"
    using q w by (simp add: inv_queue_def waiting_def)
  have mem: "\<forall>j < length (sessions s). j \<noteq> w \<and> timer (sessions s ! j) \<noteq> None \<longrightarrow> j \<in> set rest"
    using q w unfolding inv_queue_def by auto
  show "\<forall>j < length (sessions s). j \<noteq> w \<and> timer (sessions s ! j) \<noteq> None \<longrightarrow>
           j \<in> set rest \<and> ticket (sessions s ! w) < ticket (sessions s ! j)
           \<and> slotOk (sessions s ! j) = None"
    using srt wt mem by blast
qed

lemma timeout_leaves_queue:
  assumes q: "inv_queue s" and c: "inv_count s" and i: "i < length (sessions s)"
    and t: "timer (sessions s ! i) \<noteq> None"
  shows "i \<in> set (waiters s)"
    and "slotOk (sessions s ! i) = None"
    and "pc (sessions s ! i) = Await_slot"
    and "step (Timer_fired i) s = onTimeout i s"
    and "waiters (onTimeout i s) = remove1 i (waiters s)"
    and "i \<notin> set (waiters (onTimeout i s))"
    and "slotOk (sessions (onTimeout i s) ! i) = Some False"
    and "\<exists>body. response (sessions (step (Settle i Fulfilled) (onTimeout i s)) ! i)
                  = Some (429, body)"
    and "pc (sessions (step (Settle i Fulfilled) (onTimeout i s)) ! i) = Returned"
    and "\<not> countedStream (sessions (step (Settle i Fulfilled) (onTimeout i s)) ! i)"
    and "i \<notin> set (waiters (run es' (onTimeout i s)))"
    and "slotOk (sessions (run es' (onTimeout i s)) ! i) = Some False"
proof -
  show m: "i \<in> set (waiters s)"
    using q i t unfolding inv_queue_def by blast
  then have wt: "waiting (sessions s ! i)"
    using q unfolding inv_queue_def by blast
  then show n: "slotOk (sessions s ! i) = None" and p: "pc (sessions s ! i) = Await_slot"
    by (simp_all add: waiting_def)
  show "step (Timer_fired i) s = onTimeout i s" using i t by simp
  show "waiters (onTimeout i s) = remove1 i (waiters s)"
    by (simp add: onTimeout_def)
  have "distinct (waiters s)" using q by (simp add: inv_queue_def)
  then show "i \<notin> set (waiters (onTimeout i s))"
    by (simp add: onTimeout_def)
  have x1: "sessions (onTimeout i s) ! i = expire (sessions s ! i)"
    using i by (simp add: nth_onTimeout)
  then show f: "slotOk (sessions (onTimeout i s) ! i) = Some False"
    using n by simp
  have q1: "inv_queue (onTimeout i s)"
    using q i t by (rule inv_queue_onTimeout)
  have i1: "i < length (sessions (onTimeout i s))" using i by simp
  from slotOk_run [OF q1 i1 f]
  show r: "slotOk (sessions (run es' (onTimeout i s)) ! i) = Some False" .
  have "inv_queue (run es' (onTimeout i s))" using q1 by (rule inv_queue_run)
  then show "i \<notin> set (waiters (run es' (onTimeout i s)))"
    using r by (rule settled_not_queued)
  have "counted_ok (sessions s ! i)"
    using c i by (simp add: inv_count_def list_all_length)
  then have nc: "\<not> countedStream (sessions s ! i)"
    using p by (auto simp: counted_ok_def)
  let ?s1 = "onTimeout i s"
  have p1: "pc (sessions ?s1 ! i) = Await_slot" "\<not> countedStream (sessions ?s1 ! i)"
    using x1 p nc by simp_all
  have st: "step (Settle i Fulfilled) ?s1
              = (case handler (sessions ?s1 ! i) of
                   Channel_stream \<Rightarrow>
                     fail i 429 ''Too many concurrent streams (timed out waiting for a slot)''
                       ''queue timeout'' ?s1
                 | Generic_stream \<Rightarrow>
                     fail i 429 ''Too many concurrent streams'' ''queue timeout'' ?s1)"
    using i1 p1 f by (cases "handler (sessions ?s1 ! i)") simp_all
  have g: "response (sessions (fail i code body why ?s1) ! i) = Some (code, body)
           \<and> pc (sessions (fail i code body why ?s1) ! i) = Returned
           \<and> \<not> countedStream (sessions (fail i code body why ?s1) ! i)" for code body why
    using nth_fail [OF i1 i1, of code body why] p1 by simp
  show "\<exists>body. response (sessions (step (Settle i Fulfilled) ?s1) ! i) = Some (429, body)"
    unfolding st using g by (cases "handler (sessions ?s1 ! i)") simp_all
  show "pc (sessions (step (Settle i Fulfilled) ?s1) ! i) = Returned"
    unfolding st using g by (cases "handler (sessions ?s1 ! i)") simp_all
  show "\<not> countedStream (sessions (step (Settle i Fulfilled) ?s1) ! i)"
    unfolding st using g by (cases "handler (sessions ?s1 ! i)") simp_all
qed

lemma release_wakes_head:
  assumes q: "inv_queue s" and c: "inv_count s" and i: "i < length (sessions s)"
    and n: "\<not> cleanup_done (sessions s ! i)" and h: "countedStream (sessions s ! i)"
    and w: "waiters s = w # rest"
  shows "waiters (cleanup i why s) = rest"
    and "slotOk (sessions (cleanup i why s) ! w) = Some True"
    and "\<forall>v \<in> set rest. slotOk (sessions (cleanup i why s) ! v) = None"
proof -
  show "waiters (cleanup i why s) = rest"
    using state_cleanup(1) [OF i, of why] n h w by simp
  show "slotOk (sessions (cleanup i why s) ! w) = Some True"
    using head_waiter_woken(1) [OF q c i n h w] .
  have d: "w \<notin> set rest" using q w by (simp add: inv_queue_def)
  have "slotOk (sessions (cleanup i why s) ! v) = None" if v: "v \<in> set rest" for v
  proof -
    have vs: "v < length (sessions s)" "slotOk (sessions s ! v) = None"
      using q w v by (simp_all add: inv_queue_def waiting_def)
    have "v \<noteq> w" using d v by auto
    then show ?thesis
      using nth_cleanup [OF vs(1) i, of why] n h w vs(2) by auto
  qed
  then show "\<forall>v \<in> set rest. slotOk (sessions (cleanup i why s) ! v) = None" by blast
qed

text \<open>
  C3. In every state the server can reach: if the queue is not empty, a release
  (\<open>notifyStreamSlot\<close>) takes its first entry off and resolves that caller's promise to
  \<open>true\<close>; every other session is left as it is, and every other caller still waiting
  (its timer armed) stays in the queue, unresolved, and made its call later than the one woken
  (its push has a higher position). When the timer of a waiting caller fires, the caller is
  in the queue and unresolved; the callback removes it from the queue and resolves its promise
  to \<open>false\<close>, upon which the handler replies 429 and returns without taking a slot; and
  whatever happens afterwards, it is never in the queue again and its promise stays
  \<open>false\<close>. The release is what the cleanup of a session holding a slot does: it
  leaves the queue without its first entry, that caller resolved to \<open>true\<close> and the
  others unresolved.
\<close>

theorem waiters_fifo_and_timeout:
  assumes "s = run es (init fmt)"
  shows "(\<forall>w rest. waiters s = w # rest \<longrightarrow>
            waiters (notifyStreamSlot s) = rest
          \<and> slotOk (sessions (notifyStreamSlot s) ! w) = Some True
          \<and> timer (sessions (notifyStreamSlot s) ! w) = None
          \<and> (\<forall>j < length (sessions s). j \<noteq> w \<longrightarrow>
                sessions (notifyStreamSlot s) ! j = sessions s ! j)
          \<and> (\<forall>j < length (sessions s). j \<noteq> w \<and> timer (sessions s ! j) \<noteq> None \<longrightarrow>
                j \<in> set rest \<and> ticket (sessions s ! w) < ticket (sessions s ! j)
                \<and> slotOk (sessions s ! j) = None))
       \<and> (\<forall>i < length (sessions s). timer (sessions s ! i) \<noteq> None \<longrightarrow>
            i \<in> set (waiters s)
          \<and> slotOk (sessions s ! i) = None
          \<and> step (Timer_fired i) s = onTimeout i s
          \<and> waiters (onTimeout i s) = remove1 i (waiters s)
          \<and> i \<notin> set (waiters (onTimeout i s))
          \<and> slotOk (sessions (onTimeout i s) ! i) = Some False
          \<and> (\<exists>body. response (sessions (step (Settle i Fulfilled) (onTimeout i s)) ! i)
                        = Some (429, body))
          \<and> pc (sessions (step (Settle i Fulfilled) (onTimeout i s)) ! i) = Returned
          \<and> \<not> countedStream (sessions (step (Settle i Fulfilled) (onTimeout i s)) ! i)
          \<and> (\<forall>es'. i \<notin> set (waiters (run es' (onTimeout i s)))
                   \<and> slotOk (sessions (run es' (onTimeout i s)) ! i) = Some False))
       \<and> (\<forall>i < length (sessions s).
            \<not> cleanup_done (sessions s ! i) \<and> countedStream (sessions s ! i) \<longrightarrow>
            (\<forall>w rest. waiters s = w # rest \<longrightarrow>
                waiters (cleanup i why s) = rest
              \<and> slotOk (sessions (cleanup i why s) ! w) = Some True
              \<and> (\<forall>v \<in> set rest. slotOk (sessions (cleanup i why s) ! v) = None)))"
proof -
  have q: "inv_queue s" and c: "inv_count s"
    unfolding assms by (simp_all add: inv_queue_run inv_queue_init inv_count_run inv_count_init)
  have a: "waiters (notifyStreamSlot s) = rest
          \<and> slotOk (sessions (notifyStreamSlot s) ! w) = Some True
          \<and> timer (sessions (notifyStreamSlot s) ! w) = None
          \<and> (\<forall>j < length (sessions s). j \<noteq> w \<longrightarrow>
                sessions (notifyStreamSlot s) ! j = sessions s ! j)
          \<and> (\<forall>j < length (sessions s). j \<noteq> w \<and> timer (sessions s ! j) \<noteq> None \<longrightarrow>
                j \<in> set rest \<and> ticket (sessions s ! w) < ticket (sessions s ! j)
                \<and> slotOk (sessions s ! j) = None)"
    if "waiters s = w # rest" for w rest
    using fifo_release [OF q that] by blast
  have b: "i \<in> set (waiters s)
          \<and> slotOk (sessions s ! i) = None
          \<and> step (Timer_fired i) s = onTimeout i s
          \<and> waiters (onTimeout i s) = remove1 i (waiters s)
          \<and> i \<notin> set (waiters (onTimeout i s))
          \<and> slotOk (sessions (onTimeout i s) ! i) = Some False
          \<and> (\<exists>body. response (sessions (step (Settle i Fulfilled) (onTimeout i s)) ! i)
                        = Some (429, body))
          \<and> pc (sessions (step (Settle i Fulfilled) (onTimeout i s)) ! i) = Returned
          \<and> \<not> countedStream (sessions (step (Settle i Fulfilled) (onTimeout i s)) ! i)
          \<and> (\<forall>es'. i \<notin> set (waiters (run es' (onTimeout i s)))
                   \<and> slotOk (sessions (run es' (onTimeout i s)) ! i) = Some False)"
    if "i < length (sessions s)" "timer (sessions s ! i) \<noteq> None" for i
    using timeout_leaves_queue [OF q c that] by blast
  have r: "waiters (cleanup i why s) = rest
              \<and> slotOk (sessions (cleanup i why s) ! w) = Some True
              \<and> (\<forall>v \<in> set rest. slotOk (sessions (cleanup i why s) ! v) = None)"
    if "i < length (sessions s)" "\<not> cleanup_done (sessions s ! i)"
       "countedStream (sessions s ! i)" "waiters s = w # rest" for i w rest
    using release_wakes_head [OF q c that] by blast
  from a b r show ?thesis by blast
qed

theorem waiters_fifo_and_timeout_witness:
  "waiters (run two_queued (init Mpegts)) = [2, 3]
   \<and> waiters (notifyStreamSlot (run two_queued (init Mpegts))) = [3]
   \<and> slotOk (sessions (notifyStreamSlot (run two_queued (init Mpegts))) ! 2) = Some True
   \<and> sessions (notifyStreamSlot (run two_queued (init Mpegts))) ! 3
       = sessions (run two_queued (init Mpegts)) ! 3
   \<and> ticket (sessions (run two_queued (init Mpegts)) ! 2)
       < ticket (sessions (run two_queued (init Mpegts)) ! 3)
   \<and> waiters (onTimeout 2 (run two_queued (init Mpegts))) = [3]
   \<and> slotOk (sessions (onTimeout 2 (run two_queued (init Mpegts))) ! 2) = Some False
   \<and> pc (sessions (step (Settle 2 Fulfilled) (onTimeout 2 (run two_queued (init Mpegts)))) ! 2)
       = Returned
   \<and> slotOk (sessions (run [Emit 0 Res_close, Settle 2 Fulfilled]
                          (onTimeout 2 (run two_queued (init Mpegts)))) ! 2) = Some False"
proof -
  let ?s = "run two_queued (init Mpegts)"
  have "let s = run two_queued (init Mpegts) in
          waiters s = [2, 3] \<and> map timer (sessions s) = [None, None, Some 5000, Some 5000]"
    by code_simp
  then have w: "waiters ?s = [2, 3]"
    and m: "map timer (sessions ?s) = [None, None, Some 5000, Some 5000]"
    by (simp_all add: Let_def)
  have l: "length (sessions ?s) = 4"
    using arg_cong [OF m, of length] by simp
  have "map timer (sessions ?s) ! 2 \<noteq> None \<and> map timer (sessions ?s) ! 3 \<noteq> None"
    unfolding m by simp
  then have t: "timer (sessions ?s ! 2) \<noteq> None \<and> timer (sessions ?s ! 3) \<noteq> None"
    using l by simp
  note T = waiters_fifo_and_timeout [OF refl, of two_queued Mpegts]
  have fifo: "waiters (notifyStreamSlot ?s) = [3]
          \<and> slotOk (sessions (notifyStreamSlot ?s) ! 2) = Some True
          \<and> (\<forall>j < length (sessions ?s). j \<noteq> 2 \<longrightarrow>
                sessions (notifyStreamSlot ?s) ! j = sessions ?s ! j)
          \<and> (\<forall>j < length (sessions ?s). j \<noteq> 2 \<and> timer (sessions ?s ! j) \<noteq> None \<longrightarrow>
                j \<in> set [3] \<and> ticket (sessions ?s ! 2) < ticket (sessions ?s ! j)
                \<and> slotOk (sessions ?s ! j) = None)"
    using T w by blast
  have f3: "sessions (notifyStreamSlot ?s) ! 3 = sessions ?s ! 3
            \<and> ticket (sessions ?s ! 2) < ticket (sessions ?s ! 3)"
    using fifo l t by simp
  have l2: "2 < length (sessions ?s)" using l by simp
  have t2: "timer (sessions ?s ! 2) \<noteq> None" using t by simp
  have out: "waiters (onTimeout 2 ?s) = remove1 2 (waiters ?s)
          \<and> slotOk (sessions (onTimeout 2 ?s) ! 2) = Some False
          \<and> pc (sessions (step (Settle 2 Fulfilled) (onTimeout 2 ?s)) ! 2) = Returned
          \<and> (\<forall>es'. 2 \<notin> set (waiters (run es' (onTimeout 2 ?s)))
                   \<and> slotOk (sessions (run es' (onTimeout 2 ?s)) ! 2) = Some False)"
    using T l2 t2 by blast
  then have o1: "waiters (onTimeout 2 ?s) = [3]" using w by simp
  from fifo f3 out o1 w show ?thesis by blast
qed


lemma take_prefix_order: "prefix (take n xs) xs"
  by (metis append_take_drop_id prefixI)




lemma succs_Returned [simp]: "succs (h, Returned, st) = []"
  by (cases h) simp_all









lemma consult_ok_simps [simp]:
  "consult_ok (x\<lparr>response := r\<rparr>) = consult_ok x"
  "consult_ok (x\<lparr>pc := q\<rparr>) = consult_ok x"
  "consult_ok (x\<lparr>page := pg\<rparr>) = consult_ok x"
  "consult_ok (x\<lparr>stream := st\<rparr>) = consult_ok x"
  "consult_ok (x\<lparr>mouse := m\<rparr>) = consult_ok x"
  "consult_ok (x\<lparr>ffmpegProcess := fp\<rparr>) = consult_ok x"
  by (simp_all add: consult_ok_def consulted_def)




lemma consult_ok_enter: "consult_ok x \<Longrightarrow> consult_ok (enter g q x)"
  by (auto simp: consult_ok_def consulted_def enter_def)

lemma consult_ok_gate: "g = gate_stage (handler x) \<Longrightarrow> consult_ok (enter g q x)"
  by (auto simp: consult_ok_def enter_def)

lemma consult_ok_counted:
  "consult_ok x \<Longrightarrow> slotOk x \<noteq> None \<Longrightarrow> consult_ok (x\<lparr>countedStream := True\<rparr>)"
  by (auto simp: consult_ok_def consulted_def)

lemma timer_cleaned_response [simp]:
  "timer (cleaned why (x\<lparr>response := r\<rparr>)) = timer x"
  by (simp add: cleaned_def)
























text \<open>
  C1 (the code departs from the claim). The cleanup body of the queued session runs when its
  client disconnects, before the session holds a slot, and releases none. The handler is not
  stopped by that: woken by the next release, it increments \<open>activeStreams\<close> and sets
  \<open>cleanup._countedStream\<close>; its failure reply then calls \<open>cleanup\<close>, which returns at once
  because \<open>cleanup._done\<close> is set. In the end all three sessions have run their cleanup and
  all three pages are closed, once each, but the slot the third session took was never
  released: \<open>activeStreams\<close> is 1 although every session has run its cleanup.
\<close>

theorem slot_taken_after_cleanup_never_released:
  "(let s = run abort_while_queued (init Mpegts) in
      map cleanup_done (sessions s) = [True, True, True]
    \<and> map cleanups (sessions s) = [[''res close''], [''res close''], [''req aborted'']]
    \<and> pc (sessions s ! 2) = Returned
    \<and> stages (sessions s ! 2) = [Init, PageAcquired, Navigated, CaptureStarted, SlotAcquired]
    \<and> map countedStream (sessions s) = [False, False, True]
    \<and> map releases (sessions s) = [1, 1, 0]
    \<and> closes s = [2, 0, 1]
    \<and> activeStreams s = 1)"
  by code_simp

text \<open>
  C8 (as stated, the claim fails). The cleanup of the session runs while no transcoder
  exists, so nothing is told to shut down; the piping block then spawns one, and when that
  subprocess exits with code 1 the exit listener raises an error, although the session began
  its shutdown before.
\<close>

theorem exit_after_cleanup_raises_counterexample:
  "cleanup_done (sessions (run abort_before_pipe (init Mpegts)) ! 0)
   \<and> cleanups (sessions (run abort_before_pipe (init Mpegts)) ! 0) = [''req aborted'']
   \<and> ffmpegProcess (sessions (run abort_before_pipe (init Mpegts)) ! 0)
       = Some spawnMpegTsTranscoder
   \<and> on_exit spawnMpegTsTranscoder (Some 1) None = Some (Exited_with_code 1)"
  by code_simp

text \<open>
  C8 (amended). The exit listener of the transcode subprocess hands an error to \<open>onError\<close>,
  which is the \<open>cleanup\<close> of the owning session, exactly when the exit is unexpected for that
  subprocess. For the exit statuses Node.js reports (exactly one of code and signal is not
  \<open>null\<close>): an error is raised if and only if \<open>kill\<close> has not been called on the
  transcoder (\<open>shuttingDown\<close> is unset), the signal is not \<open>SIGTERM\<close> and the code is not
  \<open>0\<close>. Once \<open>kill\<close> has run, which is what cleanup calls on the transcoder the session has
  at that moment and what sends \<open>SIGTERM\<close>, no exit raises an error; so after the cleanup of
  a session that had spawned a transcoder, an exit event changes nothing. In a session, the
  exit event runs \<open>cleanup\<close> with reason \<open>ffmpeg error\<close> exactly when the listener raises,
  and if the cleanup of the session has run before, that call changes nothing.
\<close>

theorem exit_raises_iff_unexpected:
  "((code = None) \<noteq> (signal = None) \<and> signal \<noteq> Some [] \<longrightarrow>
       (on_exit t code signal \<noteq> None)
         = (\<not> shuttingDown t \<and> signal \<noteq> Some ''SIGTERM'' \<and> code \<noteq> Some 0))
   \<and> on_exit (kill t) code signal = None
   \<and> (i < length (sessions s) \<and> ffmpegProcess (sessions s ! i) = Some t \<longrightarrow>
        step (Ffmpeg_exit i code signal) s
          = (if on_exit t code signal \<noteq> None then cleanup i ''ffmpeg error'' s else s))
   \<and> (i < length (sessions s) \<and> ffmpegProcess (sessions s ! i) = Some t
        \<and> \<not> cleanup_done (sessions s ! i) \<longrightarrow>
        ffmpegProcess (sessions (cleanup i why s) ! i) = Some (kill t)
        \<and> step (Ffmpeg_exit i code signal) (cleanup i why s) = cleanup i why s)
   \<and> (i < length (sessions s) \<and> cleanup_done (sessions s ! i) \<longrightarrow>
        step (Ffmpeg_exit i code signal) s = s)"
proof -
  have a: "(code = None) \<noteq> (signal = None) \<and> signal \<noteq> Some [] \<longrightarrow>
       (on_exit t code signal \<noteq> None)
         = (\<not> shuttingDown t \<and> signal \<noteq> Some ''SIGTERM'' \<and> code \<noteq> Some 0)"
    by (auto simp: on_exit_def split: option.splits)
  have b: "on_exit (kill t) code signal = None"
    by (simp add: on_exit_def kill_def)
  have c: "i < length (sessions s) \<and> ffmpegProcess (sessions s ! i) = Some t \<longrightarrow>
        step (Ffmpeg_exit i code signal) s
          = (if on_exit t code signal \<noteq> None then cleanup i ''ffmpeg error'' s else s)"
    by (auto split: option.splits)
  have d: "ffmpegProcess (sessions (cleanup i why s) ! i) = Some (kill t)
        \<and> step (Ffmpeg_exit i code signal) (cleanup i why s) = cleanup i why s"
    if "i < length (sessions s)" "ffmpegProcess (sessions s ! i) = Some t"
       "\<not> cleanup_done (sessions s ! i)"
  proof -
    have k: "ffmpegProcess (sessions (cleanup i why s) ! i) = Some (kill t)"
      using cleanup_body(3) [OF that(1,3), of why] that(2) by simp
    have "step (Ffmpeg_exit i code signal) (cleanup i why s) = cleanup i why s"
      by (simp add: that(1) k b)
    then show ?thesis using k by simp
  qed
  have e: "i < length (sessions s) \<and> cleanup_done (sessions s ! i) \<longrightarrow>
        step (Ffmpeg_exit i code signal) s = s"
    by (simp add: cleanup_again split: option.splits)
  from a b c d e show ?thesis by blast
qed

theorem exit_raises_iff_unexpected_witness:
  "on_exit spawnMpegTsTranscoder (Some 1) None = Some (Exited_with_code 1)
   \<and> on_exit spawnMpegTsTranscoder None (Some ''SIGKILL'') = Some (Killed_by_signal ''SIGKILL'')
   \<and> on_exit spawnMpegTsTranscoder None (Some ''SIGTERM'') = None
   \<and> on_exit spawnMpegTsTranscoder (Some 0) None = None
   \<and> on_exit (kill spawnMpegTsTranscoder) (Some 1) None = None
   \<and> ffmpegProcess (sessions piping_state ! 0) = Some spawnMpegTsTranscoder
   \<and> step (Ffmpeg_exit 0 (Some 1) None) piping_state = cleanup 0 ''ffmpeg error'' piping_state
   \<and> step (Ffmpeg_exit 0 (Some 1) None) (cleanup 0 ''res close'' piping_state)
        = cleanup 0 ''res close'' piping_state
   \<and> step (Ffmpeg_exit 0 (Some 1) None) (run abort_before_pipe (init Mpegts))
        = run abort_before_pipe (init Mpegts)"
proof -
  have "let s = piping_state in
          ffmpegProcess (sessions s ! 0) = Some spawnMpegTsTranscoder
        \<and> 0 < length (sessions s) \<and> \<not> cleanup_done (sessions s ! 0)"
    by code_simp
  then have f: "ffmpegProcess (sessions piping_state ! 0) = Some spawnMpegTsTranscoder"
    and l: "0 < length (sessions piping_state)"
    and n: "\<not> cleanup_done (sessions piping_state ! 0)"
    by (simp_all add: Let_def)
  have "let s = run abort_before_pipe (init Mpegts) in
          0 < length (sessions s) \<and> cleanup_done (sessions s ! 0)"
    by code_simp
  then have l': "0 < length (sessions (run abort_before_pipe (init Mpegts)))"
    and y: "cleanup_done (sessions (run abort_before_pipe (init Mpegts)) ! 0)"
    by (simp_all add: Let_def)
  note T = exit_raises_iff_unexpected
  have e1: "on_exit spawnMpegTsTranscoder (Some 1) None \<noteq> None"
    using T [of "Some 1" None spawnMpegTsTranscoder] by (simp add: spawnMpegTsTranscoder_def)
  have e2: "on_exit spawnMpegTsTranscoder None (Some ''SIGKILL'') \<noteq> None"
    using T [of None "Some ''SIGKILL''" spawnMpegTsTranscoder] by (simp add: spawnMpegTsTranscoder_def)
  have e3: "on_exit spawnMpegTsTranscoder None (Some ''SIGTERM'') = None"
    using T [of None "Some ''SIGTERM''" spawnMpegTsTranscoder] by simp
  have e4: "on_exit spawnMpegTsTranscoder (Some 0) None = None"
    using T [of "Some 0" None spawnMpegTsTranscoder] by simp
  have e5: "on_exit (kill spawnMpegTsTranscoder) (Some 1) None = None"
    using T [of "Some 1" None spawnMpegTsTranscoder] by simp
  have e6: "step (Ffmpeg_exit 0 (Some 1) None) piping_state = cleanup 0 ''ffmpeg error'' piping_state"
    using T [of "Some 1" None spawnMpegTsTranscoder 0 piping_state] f l e1 by simp
  have e7: "step (Ffmpeg_exit 0 (Some 1) None) (cleanup 0 ''res close'' piping_state)
        = cleanup 0 ''res close'' piping_state"
    using T [of "Some 1" None spawnMpegTsTranscoder 0 piping_state "''res close''"] f l n by simp
  have e8: "step (Ffmpeg_exit 0 (Some 1) None) (run abort_before_pipe (init Mpegts))
        = run abort_before_pipe (init Mpegts)"
    using T [of "Some 1" None _ 0 "run abort_before_pipe (init Mpegts)"] l' y by blast
  have f1: "on_exit spawnMpegTsTranscoder (Some 1) None = Some (Exited_with_code 1)"
    using e1 by (simp add: on_exit_def spawnMpegTsTranscoder_def)
  have f2: "on_exit spawnMpegTsTranscoder None (Some ''SIGKILL'') = Some (Killed_by_signal ''SIGKILL'')"
    using e2 by (simp add: on_exit_def spawnMpegTsTranscoder_def)
  from f1 f2 e3 e4 e5 e6 e7 e8 f show ?thesis by simp
qed

end
